theory Spec2Isabelle
  imports Main "HOL-Library.Extended_Nat"
begin

section \<open>Breakpoint positions: data model\<close>

text \<open>
  The embedding follows \<^verbatim>\<open>src/actions/breakpoints/breakpointPositions.js\<close>.
  A line number is a natural number that a JavaScript number represents: every natural
  number below \<open>2 ^ 53\<close>, and above that only some. A column of a range end may be
  the JavaScript value \<^verbatim>\<open>Infinity\<close>, so it is an extended natural number; the
  columns the client reports are natural numbers. The JavaScript values
  \<^verbatim>\<open>null\<close> and \<^verbatim>\<open>undefined\<close> are both \<open>None\<close>.
\<close>

datatype error =
    Rejected string \<comment> \<open>a collaborator's promise rejected, with its reason\<close>
  | TypeError \<comment> \<open>a property of \<^verbatim>\<open>null\<close> or \<^verbatim>\<open>undefined\<close> was read\<close>
  | SourceNotFound string \<comment> \<open>raised by the selector \<^verbatim>\<open>getSourceFromId\<close>\<close>

record Source =
  src_id :: string
  src_url :: string

record SourceLocation =
  sourceId :: string
  line :: nat
  column :: nat
  sourceUrl :: string

record Position =
  pos_line :: nat
  pos_column :: enat

record Range =
  range_start :: Position
  range_end :: Position

record MappedLocation =
  location :: "SourceLocation option"
  generatedLocation :: "SourceLocation option"

text \<open>
  A \<^verbatim>\<open>LineColumnTable\<close> is an object whose keys are line numbers. It is given by
  the list of its properties in \<^verbatim>\<open>for ... in\<close> order: the keys that are array
  indices (at most \<open>2 ^ 32 - 2\<close>) in ascending order, then the other keys in the
  order of their creation.
\<close>

type_synonym LineColumnTable = "(nat \<times> nat list) list"

text \<open>
  The helpers this file imports from elsewhere: \<^verbatim>\<open>isOriginalId\<close> and
  \<^verbatim>\<open>originalToGeneratedId\<close> of the package devtools-source-map, and
  \<^verbatim>\<open>makeBreakpointId\<close> of \<^verbatim>\<open>utils/breakpoint\<close>. They are parameters of
  the model. \<^verbatim>\<open>makeBreakpointId\<close> is applied to the \<^verbatim>\<open>location\<close> field of
  an entry, which may be \<^verbatim>\<open>null\<close>, and may raise.
\<close>

record 'k helpers =
  isOriginalId :: "string \<Rightarrow> bool"
  originalToGeneratedId :: "string \<Rightarrow> string"
  makeBreakpointId :: "SourceLocation option \<Rightarrow> error + 'k"

section \<open>The pure stages of the pipeline\<close>

subsection \<open>mapLocations (lines 26-37)\<close>

text \<open>
  lodash's \<^verbatim>\<open>zip\<close> groups the elements of two arrays by index and pads the shorter
  array with \<^verbatim>\<open>undefined\<close>.
\<close>

fun zip_lodash :: "'a list \<Rightarrow> 'b list \<Rightarrow> ('a option \<times> 'b option) list" where
  "zip_lodash [] [] = []"
| "zip_lodash (x # xs) [] = (Some x, None) # zip_lodash xs []"
| "zip_lodash [] (y # ys) = (None, Some y) # zip_lodash [] ys"
| "zip_lodash (x # xs) (y # ys) = (Some x, Some y) # zip_lodash xs ys"

text \<open>
  \<open>mapLocations originalLocations generatedLocations\<close> is the part of
  \<^verbatim>\<open>mapLocations\<close> after its \<^verbatim>\<open>await\<close>: the first argument is what
  \<^verbatim>\<open>sourceMaps.getOriginalLocations(generatedLocations)\<close> resolved to. An element of
  that answer may be \<^verbatim>\<open>null\<close>.
\<close>

definition mapLocations ::
  "SourceLocation option list \<Rightarrow> SourceLocation list \<Rightarrow> MappedLocation list" where
  "mapLocations originalLocations generatedLocations =
     map (\<lambda>(l, g). \<lparr>location = (case l of None \<Rightarrow> None | Some x \<Rightarrow> x), generatedLocation = g\<rparr>)
       (zip_lodash originalLocations generatedLocations)"

subsection \<open>filterByUniqLocation (lines 39-41)\<close>

text \<open>
  lodash's \<^verbatim>\<open>uniqBy\<close> walks the array once. It applies the iteratee to each element
  and keeps the element when the computed key was not seen before. An iteratee that
  raises ends the walk.
\<close>

fun uniqBy_loop :: "('a \<Rightarrow> error + 'k) \<Rightarrow> 'k list \<Rightarrow> 'a list \<Rightarrow> error + 'a list" where
  "uniqBy_loop iteratee seen [] = Inr []"
| "uniqBy_loop iteratee seen (x # xs) =
     (case iteratee x of
        Inl e \<Rightarrow> Inl e
      | Inr computed \<Rightarrow>
          if computed \<in> set seen then uniqBy_loop iteratee seen xs
          else (case uniqBy_loop iteratee (computed # seen) xs of
                  Inl e \<Rightarrow> Inl e
                | Inr result \<Rightarrow> Inr (x # result)))"

definition uniqBy :: "'a list \<Rightarrow> ('a \<Rightarrow> error + 'k) \<Rightarrow> error + 'a list" where
  "uniqBy array iteratee = uniqBy_loop iteratee [] array"

definition filterByUniqLocation ::
  "'k helpers \<Rightarrow> MappedLocation list \<Rightarrow> error + MappedLocation list" where
  "filterByUniqLocation h positions =
     uniqBy positions (\<lambda>p. makeBreakpointId h (location p))"

subsection \<open>convertToList (lines 43-59)\<close>

definition convertToList :: "LineColumnTable \<Rightarrow> Source \<Rightarrow> SourceLocation list" where
  "convertToList results source =
     concat (map (\<lambda>(ln, columns).
        map (\<lambda>c. \<lparr>sourceId = src_id source, line = ln, column = c,
                   sourceUrl = src_url source\<rparr>) columns) results)"

subsection \<open>The body of the loop over the ranges (lines 83-98)\<close>

text \<open>
  \<^verbatim>\<open>n + 1\<close> for a line number \<open>n\<close>. JavaScript numbers are IEEE doubles and
  the sum is rounded to the nearest of them, to the one with the even mantissa in a
  tie. Below \<open>2 ^ 53\<close> the sum is exact. From \<open>2 ^ 53\<close> to \<open>2 ^ 54\<close> the
  doubles are the even numbers, so \<open>n + 1\<close> is a tie between \<open>n\<close> and
  \<open>n + 2\<close>, and the multiple of 4 wins. From \<open>2 ^ 54\<close> on the doubles are 4 or
  more apart and the sum rounds back to \<open>n\<close>.
\<close>

definition js_add1 :: "nat \<Rightarrow> nat" where
  "js_add1 n =
     (if n < 2 ^ 53 then n + 1
      else if n < 2 ^ 54 \<and> n mod 4 = 2 then n + 2
      else n)"

text \<open>Lines 87-92: an infinite end column wraps to the start of the next line.\<close>

definition wrapInfiniteEnd :: "Range \<Rightarrow> Range" where
  "wrapInfiniteEnd rng =
     (if pos_column (range_end rng) = \<infinity>
      then rng\<lparr>range_end := \<lparr>pos_line = js_add1 (pos_line (range_end rng)), pos_column = 0\<rparr>\<rparr>
      else rng)"

text \<open>
  Lines 95-97: \<^verbatim>\<open>results[line] = (results[line] || []).concat(bps[line])\<close> for
  every line of \<^verbatim>\<open>bps\<close>. An assignment to a key that the object has keeps the
  place of the key. A new key that is an array index, that is at most \<open>2 ^ 32 - 2\<close>,
  takes its place in the ascending order of the array indices, which come first; any
  other new key goes to the end.
\<close>

fun tbl_set :: "nat \<Rightarrow> nat list \<Rightarrow> LineColumnTable \<Rightarrow> LineColumnTable" where
  "tbl_set l v [] = [(l, v)]"
| "tbl_set l v ((k, w) # t) =
     (if l = k then (k, v) # t
      else if l \<le> 4294967294 \<and> (l < k \<or> 4294967294 < k) then (l, v) # (k, w) # t
      else (k, w) # tbl_set l v t)"

definition tbl_get :: "LineColumnTable \<Rightarrow> nat \<Rightarrow> nat list" where
  "tbl_get t l = (case map_of t l of None \<Rightarrow> [] | Some v \<Rightarrow> v)"

definition mergeBps :: "LineColumnTable \<Rightarrow> LineColumnTable \<Rightarrow> LineColumnTable" where
  "mergeBps bps results =
     fold (\<lambda>(ln, columns) res. tbl_set ln (tbl_get res ln @ columns) res) bps results"

section \<open>The store, the registry of requests and the tasks\<close>

text \<open>
  JavaScript runs one job at a time, to completion. An \<^verbatim>\<open>async\<close> function runs
  until its next \<^verbatim>\<open>await\<close>, which always suspends it; it is resumed by a later
  job, when the awaited promise has settled. Between two jobs of one function, jobs of
  other calls and of the rest of the application may run. The model has one transition
  for each such job of this file, and transitions for what the rest of the application
  does to the sources of the store.

  A collaborator call is recorded when it is issued; its answer arrives as an event.
\<close>

datatype call =
    GetGeneratedRangesForOriginal string string bool
  | GetBreakpointPositions Source "Range option"
  | GetOriginalLocations "SourceLocation list"

datatype reply =
    Ranges "Range list"
  | Positions LineColumnTable
  | Originals "SourceLocation option list"
  | Reject string

text \<open>The action \<^verbatim>\<open>{type: "ADD_BREAKPOINT_POSITIONS", source, positions}\<close>.\<close>

record action =
  act_source :: Source
  act_positions :: "MappedLocation list"

text \<open>
  Where a task stands: at one of the \<^verbatim>\<open>await\<close>s of
  \<^verbatim>\<open>_setBreakpointPositions\<close>, with the local variables that are live there; or
  \<^verbatim>\<open>_setBreakpointPositions\<close> has returned or raised and the \<^verbatim>\<open>finally\<close>
  block of line 132 has not run yet; or that block has run and the promise stored in
  \<^verbatim>\<open>requests\<close> has settled.
\<close>

datatype pc =
    AwaitRanges \<comment> \<open>line 72\<close>
  | AwaitBps Source "Range list" LineColumnTable
      \<comment> \<open>line 94: \<^verbatim>\<open>generatedSource\<close>, the ranges still to do, \<^verbatim>\<open>results\<close>\<close>
  | AwaitAll Source \<comment> \<open>line 100: \<^verbatim>\<open>generatedSource\<close>\<close>
  | AwaitOriginals "SourceLocation list" \<comment> \<open>line 30: \<^verbatim>\<open>generatedLocations\<close>\<close>
  | Returned "error + unit" \<comment> \<open>line 131 has an outcome\<close>
  | Settled "error + unit" \<comment> \<open>line 133 has run\<close>

record task =
  t_sourceId :: string
  t_pc :: pc

text \<open>
  A call of the thunk that \<^verbatim>\<open>setBreakpointPositions(sourceId)\<close> returns: the
  promise it awaits at line 139, if it got there, and what it returned or raised, once
  it has.
\<close>

record caller =
  c_sourceId :: string
  c_awaits :: "nat option"
  c_result :: "(error + MappedLocation list option) option"

text \<open>
  The state: the two tables of the store that this file reads, the module-level map
  \<^verbatim>\<open>requests\<close> (a promise is the index of its task), the tasks and the callers,
  and two logs: the collaborator calls and the dispatched actions, each with the task
  that issued it.
\<close>

record state =
  sources :: "string \<rightharpoonup> Source"
  breakpointPositions :: "string \<rightharpoonup> MappedLocation list"
  requests :: "string \<rightharpoonup> nat"
  tasks :: "task list"
  callers :: "caller list"
  calls :: "(nat \<times> call) list"
  dispatched :: "(nat \<times> action) list"

definition init :: state where
  "init = \<lparr>sources = Map.empty, breakpointPositions = Map.empty, requests = Map.empty,
            tasks = [], callers = [], calls = [], dispatched = []\<rparr>"

subsection \<open>The selectors and the reducer\<close>

text \<open>
  Modelled from the spec: the selectors \<^verbatim>\<open>getSource\<close>,
  \<^verbatim>\<open>hasBreakpointPositions\<close> and \<^verbatim>\<open>getBreakpointPositionsForSource\<close> are
  imported from \<^verbatim>\<open>../../selectors\<close>, which is not among the sources. The spec
  (section 6) gives them as the store reads get-source-by-id, has-cached-positions and
  get-cached-positions.
\<close>

definition getSource :: "state \<Rightarrow> string \<Rightarrow> Source option" where
  "getSource s sid = sources s sid"

definition hasBreakpointPositions :: "state \<Rightarrow> string \<Rightarrow> bool" where
  "hasBreakpointPositions s sid = (breakpointPositions s sid \<noteq> None)"

definition getBreakpointPositionsForSource ::
  "state \<Rightarrow> string \<Rightarrow> MappedLocation list option" where
  "getBreakpointPositionsForSource s sid = breakpointPositions s sid"

text \<open>
  Modelled from the spec: the selector \<^verbatim>\<open>getSourceFromId\<close> is not among the
  sources either. The spec (section 4.2) says that it fetches the current record of the
  generated source; what happens when there is none is not said. Here it raises, so that
  the lines after it always have a record to read the id and the url from.
\<close>

definition getSourceFromId :: "state \<Rightarrow> string \<Rightarrow> error + Source" where
  "getSourceFromId s sid =
     (case getSource s sid of None \<Rightarrow> Inl (SourceNotFound sid) | Some source \<Rightarrow> Inr source)"

text \<open>
  Modelled from the spec: the reducer is not among the sources. The spec (section 4.7)
  says that the action is a single update of the table of breakpoint positions at the
  id of the action's source.
\<close>

definition dispatch :: "nat \<Rightarrow> action \<Rightarrow> state \<Rightarrow> state" where
  "dispatch t a s =
     s\<lparr>breakpointPositions := (breakpointPositions s)(src_id (act_source a) \<mapsto> act_positions a),
       dispatched := dispatched s @ [(t, a)]\<rparr>"

subsection \<open>The jobs of a task\<close>

definition issue :: "nat \<Rightarrow> call \<Rightarrow> state \<Rightarrow> state" where
  "issue t c s = s\<lparr>calls := calls s @ [(t, c)]\<rparr>"

definition set_pc :: "nat \<Rightarrow> pc \<Rightarrow> state \<Rightarrow> state" where
  "set_pc t p s = s\<lparr>tasks := (tasks s)[t := (tasks s ! t)\<lparr>t_pc := p\<rparr>]\<rparr>"

text \<open>
  Lines 61-76 and 99-100: the first job of \<^verbatim>\<open>_setBreakpointPositions\<close>, run inside
  the call that registers the task. The new task is the next one of the list.
\<close>

definition u_setBreakpointPositions_start :: "'k helpers \<Rightarrow> string \<Rightarrow> state \<Rightarrow> state" where
  "u_setBreakpointPositions_start h sid s =
     (let t = length (tasks s) in
      case getSource s sid of
        None \<Rightarrow> s\<lparr>tasks := tasks s @ [\<lparr>t_sourceId = sid, t_pc = Returned (Inr ())\<rparr>]\<rparr>
      | Some generatedSource \<Rightarrow>
          if isOriginalId h sid
          then issue t (GetGeneratedRangesForOriginal sid (src_url generatedSource) True)
                 (s\<lparr>tasks := tasks s @ [\<lparr>t_sourceId = sid, t_pc = AwaitRanges\<rparr>]\<rparr>)
          else issue t (GetBreakpointPositions generatedSource None)
                 (s\<lparr>tasks := tasks s @ [\<lparr>t_sourceId = sid, t_pc = AwaitAll generatedSource\<rparr>]\<rparr>))"

text \<open>
  Lines 103-104 and 30: the table is flattened and the batch is sent to the source-map
  service.
\<close>

definition translate :: "nat \<Rightarrow> Source \<Rightarrow> LineColumnTable \<Rightarrow> state \<Rightarrow> state" where
  "translate t generatedSource results s =
     (let positions = convertToList results generatedSource in
      set_pc t (AwaitOriginals positions) (issue t (GetOriginalLocations positions) s))"

text \<open>
  Lines 83-94: the head of the loop. With a range left, its end is wrapped and the
  client is asked for the positions in it; with none left, the loop is over.
\<close>

definition fetchRanges ::
  "nat \<Rightarrow> Source \<Rightarrow> Range list \<Rightarrow> LineColumnTable \<Rightarrow> state \<Rightarrow> state" where
  "fetchRanges t generatedSource ranges results s =
     (case ranges of
        [] \<Rightarrow> translate t generatedSource results s
      | rng # rest \<Rightarrow>
          set_pc t (AwaitBps generatedSource rest results)
            (issue t (GetBreakpointPositions generatedSource (Some (wrapInfiniteEnd rng))) s))"

text \<open>Lines 77-83: the ranges have arrived.\<close>

definition afterRanges :: "'k helpers \<Rightarrow> nat \<Rightarrow> Range list \<Rightarrow> state \<Rightarrow> state" where
  "afterRanges h t ranges s =
     (let generatedSourceId = originalToGeneratedId h (t_sourceId (tasks s ! t)) in
      case getSourceFromId s generatedSourceId of
        Inl e \<Rightarrow> set_pc t (Returned (Inl e)) s
      | Inr generatedSource \<Rightarrow> fetchRanges t generatedSource ranges [] s)"

text \<open>
  Lines 34-36 and 105-116: the original locations have arrived. They are paired with
  the generated ones and deduplicated; the source is looked up again, and the positions
  are dispatched if it is still there.
\<close>

definition publish ::
  "'k helpers \<Rightarrow> nat \<Rightarrow> SourceLocation list \<Rightarrow> SourceLocation option list \<Rightarrow> state \<Rightarrow> state" where
  "publish h t generatedLocations originalLocations s =
     (case filterByUniqLocation h (mapLocations originalLocations generatedLocations) of
        Inl e \<Rightarrow> set_pc t (Returned (Inl e)) s
      | Inr positions \<Rightarrow>
          (case getSource s (t_sourceId (tasks s ! t)) of
             None \<Rightarrow> set_pc t (Returned (Inr ())) s
           | Some source \<Rightarrow>
               set_pc t (Returned (Inr ()))
                 (dispatch t \<lparr>act_source = source, act_positions = positions\<rparr> s)))"

text \<open>
  A task is resumed with the answer to the call it awaits. A rejection is raised at the
  \<^verbatim>\<open>await\<close>, and nothing in \<^verbatim>\<open>_setBreakpointPositions\<close> catches it. An answer
  that does not fit the call the task awaits, or that comes for a task that awaits
  nothing, changes nothing.
\<close>

fun resume :: "'k helpers \<Rightarrow> nat \<Rightarrow> pc \<Rightarrow> reply \<Rightarrow> state \<Rightarrow> state" where
  "resume h t AwaitRanges (Ranges ranges) s = afterRanges h t ranges s"
| "resume h t (AwaitBps generatedSource rest results) (Positions bps) s =
     fetchRanges t generatedSource rest (mergeBps bps results) s"
| "resume h t (AwaitAll generatedSource) (Positions results) s =
     translate t generatedSource results s"
| "resume h t (AwaitOriginals generatedLocations) (Originals originalLocations) s =
     publish h t generatedLocations originalLocations s"
| "resume h t AwaitRanges (Reject e) s = set_pc t (Returned (Inl (Rejected e))) s"
| "resume h t (AwaitBps generatedSource rest results) (Reject e) s =
     set_pc t (Returned (Inl (Rejected e))) s"
| "resume h t (AwaitAll generatedSource) (Reject e) s = set_pc t (Returned (Inl (Rejected e))) s"
| "resume h t (AwaitOriginals generatedLocations) (Reject e) s =
     set_pc t (Returned (Inl (Rejected e))) s"
| "resume h t p r s = s"

text \<open>
  Lines 130-134: the job after \<^verbatim>\<open>await _setBreakpointPositions(...)\<close>. Whatever
  the outcome, the \<^verbatim>\<open>finally\<close> block deletes the entry of the source id, and the
  promise settles with that outcome.
\<close>

definition settle :: "nat \<Rightarrow> state \<Rightarrow> state" where
  "settle t s =
     (case t_pc (tasks s ! t) of
        Returned r \<Rightarrow>
          set_pc t (Settled r) (s\<lparr>requests := (requests s)(t_sourceId (tasks s ! t) := None)\<rparr>)
      | _ \<Rightarrow> s)"

text \<open>
  Lines 139-140: the jobs after \<^verbatim>\<open>await requests.get(sourceId)\<close>, of all the calls
  that await the promise. They were queued together when the promise settled, so they
  run one after the other with no other job between them. A call whose promise rejected
  raises the same error; the others read the store.
\<close>

definition deliver_to :: "state \<Rightarrow> nat \<Rightarrow> error + unit \<Rightarrow> caller \<Rightarrow> caller" where
  "deliver_to s t r c =
     (if c_awaits c = Some t \<and> c_result c = None
      then c\<lparr>c_result := Some (case r of
                Inl e \<Rightarrow> Inl e
              | Inr u \<Rightarrow> Inr (getBreakpointPositionsForSource s (c_sourceId c)))\<rparr>
      else c)"

definition deliver :: "nat \<Rightarrow> state \<Rightarrow> state" where
  "deliver t s =
     (case t_pc (tasks s ! t) of
        Settled r \<Rightarrow> s\<lparr>callers := map (deliver_to s t r) (callers s)\<rparr>
      | _ \<Rightarrow> s)"

subsection \<open>setBreakpointPositions (lines 119-142)\<close>

text \<open>
  The job of a call, up to its return at line 123 or its \<^verbatim>\<open>await\<close> at line 139.
\<close>

definition setBreakpointPositions :: "'k helpers \<Rightarrow> string \<Rightarrow> state \<Rightarrow> state" where
  "setBreakpointPositions h sid s =
     (if hasBreakpointPositions s sid
      then s\<lparr>callers := callers s @
             [\<lparr>c_sourceId = sid, c_awaits = None,
               c_result = Some (Inr (getBreakpointPositionsForSource s sid))\<rparr>]\<rparr>
      else
        let s1 = (if requests s sid = None
                  then (u_setBreakpointPositions_start h sid s)
                         \<lparr>requests := (requests s)(sid \<mapsto> length (tasks s))\<rparr>
                  else s)
        in s1\<lparr>callers := callers s1 @
               [\<lparr>c_sourceId = sid, c_awaits = requests s1 sid, c_result = None\<rparr>]\<rparr>)"

subsection \<open>Events and runs\<close>

datatype event =
    Call string \<comment> \<open>somebody calls \<^verbatim>\<open>setBreakpointPositions(sourceId)\<close>\<close>
  | Reply nat reply \<comment> \<open>the call a task awaits is answered\<close>
  | Settle nat
  | Deliver nat
  | AddSource Source \<comment> \<open>the application adds a source to the store\<close>
  | RemoveSource string \<comment> \<open>the application removes one, as in a navigation\<close>

fun step :: "'k helpers \<Rightarrow> event \<Rightarrow> state \<Rightarrow> state" where
  "step h (Call sid) s = setBreakpointPositions h sid s"
| "step h (Reply t r) s = (if t < length (tasks s) then resume h t (t_pc (tasks s ! t)) r s else s)"
| "step h (Settle t) s = (if t < length (tasks s) then settle t s else s)"
| "step h (Deliver t) s = (if t < length (tasks s) then deliver t s else s)"
| "step h (AddSource source) s = s\<lparr>sources := (sources s)(src_id source \<mapsto> source)\<rparr>"
| "step h (RemoveSource sid) s = s\<lparr>sources := (sources s)(sid := None)\<rparr>"

fun run :: "'k helpers \<Rightarrow> event list \<Rightarrow> state \<Rightarrow> state" where
  "run h [] s = s"
| "run h (e # es) s = run h es (step h e s)"

section \<open>Notions used in the statements\<close>

text \<open>
  The entries of a list that are the first with their key, in the order of the list:
  the entry at index \<open>i\<close> stays when no entry before it has the same key.
\<close>

definition first_occurrences :: "('a \<Rightarrow> 'k) \<Rightarrow> 'a list \<Rightarrow> 'a list" where
  "first_occurrences key xs =
     map (\<lambda>i. xs ! i) (filter (\<lambda>i. key (xs ! i) \<notin> set (map key (take i xs))) [0..<length xs])"

text \<open>The same with a set of keys that are taken already; used in the proofs.\<close>

definition unseen_first :: "('a \<Rightarrow> 'k) \<Rightarrow> 'k set \<Rightarrow> 'a list \<Rightarrow> 'a list" where
  "unseen_first key S xs =
     map (\<lambda>i. xs ! i) (filter (\<lambda>i. key (xs ! i) \<notin> S \<union> key ` set (take i xs)) [0..<length xs])"

text \<open>
  What the spec (section 3) derives the canonical identity from: the source id, the
  line and the column of the original location.
\<close>

definition locationTriple :: "MappedLocation \<Rightarrow> (string \<times> nat \<times> nat) option" where
  "locationTriple p = map_option (\<lambda>l. (sourceId l, line l, column l)) (location p)"

text \<open>
  A task is awaiting while \<^verbatim>\<open>_setBreakpointPositions\<close> is suspended at one of
  its \<^verbatim>\<open>await\<close>s, and settled once its promise is.
\<close>

fun awaiting :: "pc \<Rightarrow> bool" where
  "awaiting (Returned r) = False"
| "awaiting (Settled r) = False"
| "awaiting p = True"

fun is_settled :: "pc \<Rightarrow> bool" where
  "is_settled (Settled r) = True"
| "is_settled p = False"

text \<open>The requests for the generated ranges that a task has issued.\<close>

fun is_ranges_call :: "call \<Rightarrow> bool" where
  "is_ranges_call (GetGeneratedRangesForOriginal sid u b) = True"
| "is_ranges_call c = False"

definition ranges_calls :: "nat \<Rightarrow> state \<Rightarrow> (nat \<times> call) list" where
  "ranges_calls t s = filter (\<lambda>(u, c). u = t \<and> is_ranges_call c) (calls s)"

subsection \<open>Invariants of the reachable states\<close>

text \<open>
  An entry of \<^verbatim>\<open>requests\<close> names a task of its source id whose promise is
  pending, and every task whose promise is pending has its entry.
\<close>

definition inv_req :: "state \<Rightarrow> bool" where
  "inv_req s = (\<forall>sid t. requests s sid = Some t \<longrightarrow>
     t < length (tasks s) \<and> t_sourceId (tasks s ! t) = sid \<and> \<not> is_settled (t_pc (tasks s ! t)))"

definition inv_reg :: "state \<Rightarrow> bool" where
  "inv_reg s = (\<forall>t < length (tasks s). \<not> is_settled (t_pc (tasks s ! t)) \<longrightarrow>
     requests s (t_sourceId (tasks s ! t)) = Some t)"

text \<open>
  A call awaits a task of its own source id, and has a result only when the promise of
  that task has settled; the calls that await one task have the same result.
\<close>

definition inv_call :: "state \<Rightarrow> bool" where
  "inv_call s = (\<forall>c \<in> set (callers s). \<forall>t. c_awaits c = Some t \<longrightarrow>
     t < length (tasks s) \<and> t_sourceId (tasks s ! t) = c_sourceId c \<and>
     (c_result c \<noteq> None \<longrightarrow> is_settled (t_pc (tasks s ! t))))"

definition inv_same :: "state \<Rightarrow> bool" where
  "inv_same s = (\<forall>c \<in> set (callers s). \<forall>c' \<in> set (callers s).
     c_awaits c = c_awaits c' \<and> c_awaits c \<noteq> None \<longrightarrow> c_result c = c_result c')"

text \<open>Only a task that returned normally has dispatched.\<close>

definition inv_disp :: "state \<Rightarrow> bool" where
  "inv_disp s = (\<forall>(t, a) \<in> set (dispatched s).
     t < length (tasks s) \<and> t_pc (tasks s ! t) \<in> {Returned (Inr ()), Settled (Inr ())})"

definition wf :: "state \<Rightarrow> bool" where
  "wf s = (inv_req s \<and> inv_reg s \<and> inv_call s \<and> inv_same s \<and> inv_disp s)"

text \<open>
  A collaborator call is issued by a task that exists, and a task asks for the generated
  ranges at most once.
\<close>

definition inv_calls :: "state \<Rightarrow> bool" where
  "inv_calls s = ((\<forall>(u, c) \<in> set (calls s). u < length (tasks s)) \<and>
                  (\<forall>t. length (ranges_calls t s) \<le> 1))"



text \<open>
  What stays true of a task once \<^verbatim>\<open>_setBreakpointPositions\<close> has raised \<open>x\<close>:
  its promise is pending or rejected with \<open>x\<close>, it has dispatched nothing, and a call
  that awaits it and has a result has raised \<open>x\<close>.
\<close>

definition failed_inv :: "nat \<Rightarrow> error \<Rightarrow> state \<Rightarrow> bool" where
  "failed_inv t x s =
     (t < length (tasks s) \<and>
      (t_pc (tasks s ! t) = Returned (Inl x) \<or> t_pc (tasks s ! t) = Settled (Inl x)) \<and>
      t \<notin> fst ` set (dispatched s) \<and>
      (\<forall>c\<in>set (callers s). c_awaits c = Some t \<and> c_result c \<noteq> None \<longrightarrow>
                             c_result c = Some (Inl x)))"

subsection \<open>Instances for the examples\<close>

text \<open>
  Two instances of the helpers. In both, an id that starts with \<open>O\<close> is original
  and its generated source has the same id with \<open>G\<close> in place of \<open>O\<close>, and the
  identity of a location is the triple of the spec (section 3). In the first,
  \<^verbatim>\<open>makeBreakpointId\<close> raises on \<^verbatim>\<open>null\<close>, as the reading of a field of
  \<^verbatim>\<open>null\<close> does in JavaScript; in the second it returns a key of its own for
  \<^verbatim>\<open>null\<close>.
\<close>

definition strict_helpers :: "(string \<times> nat \<times> nat) helpers" where
  "strict_helpers =
     \<lparr>isOriginalId = (\<lambda>sid. take 1 sid = ''O''),
      originalToGeneratedId = (\<lambda>sid. ''G'' @ drop 1 sid),
      makeBreakpointId = (\<lambda>l. case l of None \<Rightarrow> Inl TypeError
                                | Some l \<Rightarrow> Inr (sourceId l, line l, column l))\<rparr>"

definition lenient_helpers :: "(string \<times> nat \<times> nat) option helpers" where
  "lenient_helpers =
     \<lparr>isOriginalId = (\<lambda>sid. take 1 sid = ''O''),
      originalToGeneratedId = (\<lambda>sid. ''G'' @ drop 1 sid),
      makeBreakpointId = (\<lambda>l. Inr (map_option (\<lambda>l. (sourceId l, line l, column l)) l))\<rparr>"

definition loc :: "string \<Rightarrow> nat \<Rightarrow> nat \<Rightarrow> SourceLocation" where
  "loc sid l c = \<lparr>sourceId = sid, line = l, column = c, sourceUrl = sid @ ''.js''\<rparr>"

definition site :: "SourceLocation option \<Rightarrow> SourceLocation \<Rightarrow> MappedLocation" where
  "site l g = \<lparr>location = l, generatedLocation = Some g\<rparr>"

text \<open>A generated source and an original source, and the runs of the examples.\<close>

definition G1 :: Source where "G1 = \<lparr>src_id = ''G1'', src_url = ''G1.js''\<rparr>"

definition O1 :: Source where "O1 = \<lparr>src_id = ''O1'', src_url = ''O1.js''\<rparr>"

text \<open>
  One call for the generated source; the positions and their original locations have
  arrived and are dispatched, and the \<^verbatim>\<open>finally\<close> block has not run yet.
\<close>

definition published_trace :: "event list" where
  "published_trace =
     [AddSource G1, Call ''G1'', Reply 0 (Positions [(10, [2, 5]), (11, [0])]),
      Reply 0 (Originals [Some (loc ''O1'' 7 0), Some (loc ''O1'' 7 1), Some (loc ''O1'' 7 2)])]"

text \<open>The source is removed while the task awaits the original locations.\<close>

definition stale_trace :: "event list" where
  "stale_trace =
     [AddSource G1, Call ''G1'', Reply 0 (Positions [(10, [2, 5]), (11, [0])]),
      RemoveSource ''G1'']"

text \<open>One call for the original source, with both sources in the store.\<close>

definition original_trace :: "event list" where
  "original_trace = [AddSource O1, AddSource G1, Call ''O1'']"

text \<open>
  The same, with two ranges answered, the first with an infinite end column and the
  second with a finite one, and the positions in each of them.
\<close>

definition wrapped_trace :: "event list" where
  "wrapped_trace = original_trace @
     [Reply 0 (Ranges [\<lparr>range_start = \<lparr>pos_line = 3, pos_column = 4\<rparr>,
                        range_end = \<lparr>pos_line = 5, pos_column = \<infinity>\<rparr>\<rparr>,
                       \<lparr>range_start = \<lparr>pos_line = 7, pos_column = 0\<rparr>,
                        range_end = \<lparr>pos_line = 8, pos_column = 9\<rparr>\<rparr>]),
      Reply 0 (Positions [(3, [4]), (4, [0])]),
      Reply 0 (Positions [(7, [2])])]"

text \<open>Two calls for the same source, and the same run up to the delivery.\<close>

definition waiting_trace :: "event list" where
  "waiting_trace = [AddSource G1, Call ''G1'', Call ''G1'']"


text \<open>The client rejects the request of the only call.\<close>

definition failed_trace :: "event list" where
  "failed_trace = [AddSource G1, Call ''G1'', Reply 0 (Reject ''offline'')]"

text \<open>
  A call for a source that the store does not have; after its task has settled, a
  second call for the same source.
\<close>

definition absent_trace :: "event list" where
  "absent_trace = [Call ''G1'', Settle 0, Deliver 0, Call ''G1'']"

text \<open>
  The end-to-end example of the spec (section 8): the original source maps to one range
  of the generated source, lines 10 to 12; the client reports the columns 2 and 5 of
  line 10 and the column 0 of line 11, and the three positions map to three different
  columns of line 7 of the original source.
\<close>

definition end_to_end_trace :: "event list" where
  "end_to_end_trace =
     [AddSource O1, AddSource G1, Call ''O1'',
      Reply 0 (Ranges [\<lparr>range_start = \<lparr>pos_line = 10, pos_column = 0\<rparr>,
                        range_end = \<lparr>pos_line = 12, pos_column = \<infinity>\<rparr>\<rparr>]),
      Reply 0 (Positions [(10, [2, 5]), (11, [0])]),
      Reply 0 (Originals [Some (loc ''O1'' 7 0), Some (loc ''O1'' 7 1), Some (loc ''O1'' 7 2)]),
      Settle 0, Deliver 0]"

section \<open>The pure stages: proofs\<close>

subsection \<open>mapLocations\<close>

lemma zip_lodash_same_length:
  "length xs = length ys \<Longrightarrow> zip_lodash xs ys = map (\<lambda>(x, y). (Some x, Some y)) (zip xs ys)"
  by (induction xs ys rule: list_induct2) simp_all

text \<open>
  Claim C8. When the source-map service answers with as many locations as it was
  given, \<open>mapLocations\<close> returns that many entries, and the entry at index \<open>i\<close>
  pairs the \<open>i\<close>-th answer, as \<open>location\<close>, with the \<open>i\<close>-th generated location,
  as \<open>generatedLocation\<close>. The pairing is by index: nothing is assumed about the
  values.
\<close>

theorem mapLocations_pairs_by_index:
  assumes "length originalLocations = length generatedLocations"
  shows "length (mapLocations originalLocations generatedLocations) = length generatedLocations \<and>
         (\<forall>i < length generatedLocations.
            mapLocations originalLocations generatedLocations ! i =
              \<lparr>location = originalLocations ! i, generatedLocation = Some (generatedLocations ! i)\<rparr>)"
  using assms by (simp add: mapLocations_def zip_lodash_same_length)

theorem mapLocations_pairs_by_index_witness:
  "mapLocations [Some (loc ''O1'' 7 0), None] [loc ''G1'' 10 2, loc ''G1'' 10 5] ! 0 =
     \<lparr>location = Some (loc ''O1'' 7 0), generatedLocation = Some (loc ''G1'' 10 2)\<rparr> \<and>
   mapLocations [Some (loc ''O1'' 7 0), None] [loc ''G1'' 10 2, loc ''G1'' 10 5] ! 1 =
     \<lparr>location = None, generatedLocation = Some (loc ''G1'' 10 5)\<rparr> \<and>
   length (mapLocations [Some (loc ''O1'' 7 0), None] [loc ''G1'' 10 2, loc ''G1'' 10 5]) = 2"
  using mapLocations_pairs_by_index [of "[Some (loc ''O1'' 7 0), None]" "[loc ''G1'' 10 2, loc ''G1'' 10 5]"]
  by simp

subsection \<open>filterByUniqLocation\<close>

lemma unseen_first_Cons:
  "unseen_first key S (x # xs) =
     (if key x \<in> S then unseen_first key S xs else x # unseen_first key (insert (key x) S) xs)"
proof -
  have upt: "[0..<length (x # xs)] = 0 # map Suc [0..<length xs]"
    by (simp add: upt_conv_Cons map_Suc_upt del: upt_Suc)
  have eq: "filter (\<lambda>i. key (xs ! i) \<notin> S \<union> key ` set (x # take i xs)) [0..<length xs] =
            filter (\<lambda>i. key (xs ! i) \<notin> insert (key x) S \<union> key ` set (take i xs)) [0..<length xs]"
    by (rule filter_cong) auto
  show ?thesis
    unfolding unseen_first_def upt
    by (auto simp: filter_map comp_def intro!: arg_cong[where f="map ((!) xs)"] filter_cong)
qed

lemma uniqBy_loop_unseen_first:
  "\<forall>x\<in>set xs. f x = Inr (key x) \<Longrightarrow> uniqBy_loop f seen xs = Inr (unseen_first key (set seen) xs)"
proof (induction xs arbitrary: seen)
  case Nil
  show ?case by (simp add: unseen_first_def)
next
  case (Cons x xs)
  then show ?case by (simp add: unseen_first_Cons)
qed

lemma uniqBy_first_occurrences:
  "\<forall>x\<in>set xs. f x = Inr (key x) \<Longrightarrow> uniqBy xs f = Inr (first_occurrences key xs)"
  using uniqBy_loop_unseen_first [of xs f key "[]"]
  by (simp add: uniqBy_def first_occurrences_def unseen_first_def)

lemma uniqBy_loop_null:
  assumes "mk None = Inr k0"
  shows "uniqBy_loop (\<lambda>p. mk (location p)) seen ps = Inr qs \<Longrightarrow>
     (k0 \<in> set seen \<longrightarrow> filter (\<lambda>p. location p = None) qs = []) \<and>
     (filter (\<lambda>p. location p = None) qs = [] \<or>
      filter (\<lambda>p. location p = None) qs = take 1 (filter (\<lambda>p. location p = None) ps))"
proof (induction ps arbitrary: seen qs)
  case Nil
  then show ?case by simp
next
  case (Cons p ps)
  from Cons.prems obtain k where k: "mk (location p) = Inr k"
    by (auto split: sum.splits)
  show ?case
  proof (cases "k \<in> set seen")
    case True
    with Cons.prems k have "uniqBy_loop (\<lambda>p. mk (location p)) seen ps = Inr qs" by simp
    from Cons.IH [OF this] True k assms show ?thesis by auto
  next
    case False
    with Cons.prems k obtain qs' where
      qs': "uniqBy_loop (\<lambda>p. mk (location p)) (k # seen) ps = Inr qs'" and qs: "qs = p # qs'"
      by (auto split: sum.splits)
    from Cons.IH [OF qs'] False k assms qs show ?thesis by auto
  qed
qed

lemma uniqBy_loop_returns:
  "uniqBy_loop f seen ps = Inr qs \<Longrightarrow> set qs \<subseteq> set ps \<and> (\<forall>p\<in>set ps. \<exists>k. f p = Inr k)"
proof (induction ps arbitrary: seen qs)
  case Nil
  then show ?case by simp
next
  case (Cons p ps)
  then show ?case
    by (fastforce split: sum.splits if_splits)
qed

lemma uniqBy_loop_raises:
  "find (\<lambda>x. isl (f x)) xs = Some x \<Longrightarrow> uniqBy_loop f seen xs = Inl (projl (f x))"
proof (induction xs arbitrary: seen)
  case Nil
  then show ?case by simp
next
  case (Cons y ys)
  show ?case
  proof (cases "f y")
    case (Inl e)
    with Cons.prems show ?thesis by simp
  next
    case (Inr k)
    with Cons.prems have "find (\<lambda>x. isl (f x)) ys = Some x" by simp
    from Cons.IH [OF this] Inr show ?thesis by simp
  qed
qed

lemma first_occurrences_projr:
  assumes "\<forall>x\<in>set xs. \<not> isl (f x)"
  shows "first_occurrences (\<lambda>x. projr (f x)) xs = first_occurrences f xs"
  unfolding first_occurrences_def
proof (rule arg_cong [where f = "map ((!) xs)"], rule filter_cong [OF refl])
  fix i assume "i \<in> set [0..<length xs]"
  then have i: "i < length xs" by simp
  have r: "f x = Inr (projr (f x))" if "x \<in> set xs" for x
    using assms that by (cases "f x") auto
  have ri: "f (xs ! i) = Inr (projr (f (xs ! i)))" using r i by simp
  have rt: "f x = Inr (projr (f x))" if "x \<in> set (take i xs)" for x
    using r that by (meson in_set_takeD)
  show "(projr (f (xs ! i)) \<notin> set (map (\<lambda>x. projr (f x)) (take i xs))) =
        (f (xs ! i) \<notin> set (map f (take i xs)))"
  proof
    assume a: "projr (f (xs ! i)) \<notin> set (map (\<lambda>x. projr (f x)) (take i xs))"
    show "f (xs ! i) \<notin> set (map f (take i xs))"
    proof
      assume "f (xs ! i) \<in> set (map f (take i xs))"
      then obtain x where "x \<in> set (take i xs)" "f x = f (xs ! i)" by auto
      then have "projr (f (xs ! i)) \<in> set (map (\<lambda>x. projr (f x)) (take i xs))"
        by (metis (mono_tags, lifting) image_eqI list.set_map)
      with a show False by simp
    qed
  next
    assume a: "f (xs ! i) \<notin> set (map f (take i xs))"
    show "projr (f (xs ! i)) \<notin> set (map (\<lambda>x. projr (f x)) (take i xs))"
    proof
      assume "projr (f (xs ! i)) \<in> set (map (\<lambda>x. projr (f x)) (take i xs))"
      then obtain x where x: "x \<in> set (take i xs)" "projr (f x) = projr (f (xs ! i))" by auto
      with rt [OF x(1)] ri have "f (xs ! i) = f x" by simp
      with x(1) have "f (xs ! i) \<in> f ` set (take i xs)" by (simp only: image_eqI)
      with a show False by simp
    qed
  qed
qed

lemma uniqBy_characterisation:
  "uniqBy xs f =
     (case find (\<lambda>x. isl (f x)) xs of
        Some x \<Rightarrow> Inl (projl (f x))
      | None \<Rightarrow> Inr (first_occurrences f xs))"
proof (cases "find (\<lambda>x. isl (f x)) xs")
  case (Some x)
  then show ?thesis by (simp add: uniqBy_def uniqBy_loop_raises)
next
  case None
  then have all: "\<forall>x\<in>set xs. \<not> isl (f x)" by (simp add: find_None_iff)
  then have "\<forall>x\<in>set xs. f x = Inr (projr (f x))"
    by (metis sum.collapse(2))
  then have "uniqBy xs f = Inr (first_occurrences (\<lambda>x. projr (f x)) xs)"
    by (rule uniqBy_first_occurrences)
  with None all show ?thesis by (simp add: first_occurrences_projr)
qed

lemma null_entries_at_most_first:
  assumes "filterByUniqLocation h positions = Inr result"
  shows "filter (\<lambda>p. location p = None) result = [] \<or>
         filter (\<lambda>p. location p = None) result = take 1 (filter (\<lambda>p. location p = None) positions)"
proof (cases "makeBreakpointId h None")
  case (Inl e)
  from assms have r: "set result \<subseteq> set positions"
      "\<forall>p\<in>set positions. \<exists>k. makeBreakpointId h (location p) = Inr k"
    using uniqBy_loop_returns [of "\<lambda>p. makeBreakpointId h (location p)" "[]" positions result]
    by (simp_all add: filterByUniqLocation_def uniqBy_def)
  have "location p \<noteq> None" if "p \<in> set result" for p
  proof
    assume "location p = None"
    moreover from that r obtain k where "makeBreakpointId h (location p) = Inr k" by blast
    ultimately show False using Inl by simp
  qed
  then have "\<forall>p\<in>set result. location p \<noteq> None" by blast
  then show ?thesis by (simp add: filter_empty_conv)
next
  case (Inr k0)
  from uniqBy_loop_null [of "makeBreakpointId h", OF Inr, of "[]" positions result] assms
  show ?thesis by (simp add: filterByUniqLocation_def uniqBy_def)
qed

text \<open>
  Claim C5, as amended. Let the identity that \<^verbatim>\<open>makeBreakpointId\<close> computes be
  derived from the source id, the line and the column of the location, and let every
  entry of the sequence have an original location. Then \<open>filterByUniqLocation\<close>
  returns the entries that are the first with their identity, in the order of the input.
  In particular, of two entries with the same source id, line and column of the
  original location, whatever their generated locations, the first alone is returned.
\<close>

theorem filterByUniqLocation_first_occurrence:
  assumes "\<And>l. makeBreakpointId h (Some l) = Inr (ident (sourceId l, line l, column l))"
    and "\<forall>p\<in>set positions. location p \<noteq> None"
  shows "filterByUniqLocation h positions =
           Inr (first_occurrences (\<lambda>p. map_option ident (locationTriple p)) positions) \<and>
         (\<forall>p q. location p \<noteq> None \<and> locationTriple p = locationTriple q \<longrightarrow>
                filterByUniqLocation h [p, q] = Inr [p])"
proof -
  have key: "makeBreakpointId h (location p) = Inr (the (map_option ident (locationTriple p)))"
    if "location p \<noteq> None" for p
    using that assms(1) by (auto simp: locationTriple_def)
  have "\<forall>p\<in>set positions. makeBreakpointId h (location p) =
           Inr (the (map_option ident (locationTriple p)))"
    using key assms(2) by blast
  then have "filterByUniqLocation h positions =
      Inr (first_occurrences (\<lambda>p. the (map_option ident (locationTriple p))) positions)"
    unfolding filterByUniqLocation_def by (rule uniqBy_first_occurrences)
  moreover have "first_occurrences (\<lambda>p. the (map_option ident (locationTriple p))) positions =
      first_occurrences (\<lambda>p. map_option ident (locationTriple p)) positions"
    unfolding first_occurrences_def
  proof (rule arg_cong[where f="map ((!) positions)"], rule filter_cong[OF refl])
    fix i assume "i \<in> set [0..<length positions]"
    then have i: "i < length positions" by simp
    have nn: "locationTriple p \<noteq> None" if "p \<in> set positions" for p
      using that assms(2) by (auto simp: locationTriple_def)
    have "locationTriple (positions ! i) \<noteq> None" using nn i by simp
    moreover have "\<forall>p\<in>set (take i positions). locationTriple p \<noteq> None"
      using nn by (meson in_set_takeD)
    ultimately show "(the (map_option ident (locationTriple (positions ! i)))
             \<notin> set (map (\<lambda>p. the (map_option ident (locationTriple p))) (take i positions))) =
          (map_option ident (locationTriple (positions ! i))
             \<notin> set (map (\<lambda>p. map_option ident (locationTriple p)) (take i positions)))"
      by (auto simp: image_iff)
  qed
  moreover have "filterByUniqLocation h [p, q] = Inr [p]"
    if "location p \<noteq> None" "locationTriple p = locationTriple q" for p q
  proof -
    from that(1) obtain l where l: "location p = Some l" by auto
    with that(2) obtain l' where "location q = Some l'"
      "(sourceId l, line l, column l) = (sourceId l', line l', column l')"
      by (cases "location q") (auto simp: locationTriple_def)
    with l show ?thesis
      using assms(1) by (simp add: filterByUniqLocation_def uniqBy_def)
  qed
  ultimately show ?thesis by simp
qed

theorem filterByUniqLocation_first_occurrence_witness:
  "filterByUniqLocation strict_helpers
     [site (Some (loc ''S'' 7 2)) (loc ''G1'' 10 2), site (Some (loc ''S'' 7 2)) (loc ''G1'' 10 5),
      site (Some (loc ''S'' 8 0)) (loc ''G1'' 11 0)] =
     Inr [site (Some (loc ''S'' 7 2)) (loc ''G1'' 10 2), site (Some (loc ''S'' 8 0)) (loc ''G1'' 11 0)] \<and>
   filterByUniqLocation strict_helpers
     [site (Some (loc ''S'' 7 2)) (loc ''G1'' 10 2), site (Some (loc ''S'' 7 2)) (loc ''G1'' 10 5)] =
     Inr [site (Some (loc ''S'' 7 2)) (loc ''G1'' 10 2)]"
proof -
  have h: "makeBreakpointId strict_helpers (Some l) = Inr (id (sourceId l, line l, column l))" for l
    by (simp add: strict_helpers_def)
  have nn: "\<forall>p\<in>set [site (Some (loc ''S'' 7 2)) (loc ''G1'' 10 2),
      site (Some (loc ''S'' 7 2)) (loc ''G1'' 10 5),
      site (Some (loc ''S'' 8 0)) (loc ''G1'' 11 0)]. location p \<noteq> None"
    by (simp add: site_def)
  have ev: "first_occurrences (\<lambda>p. map_option id (locationTriple p))
      [site (Some (loc ''S'' 7 2)) (loc ''G1'' 10 2), site (Some (loc ''S'' 7 2)) (loc ''G1'' 10 5),
       site (Some (loc ''S'' 8 0)) (loc ''G1'' 11 0)] =
      [site (Some (loc ''S'' 7 2)) (loc ''G1'' 10 2), site (Some (loc ''S'' 8 0)) (loc ''G1'' 11 0)]"
    by (simp add: first_occurrences_def locationTriple_def site_def loc_def upt_rec)
  have tr: "location (site (Some (loc ''S'' 7 2)) (loc ''G1'' 10 2)) \<noteq> None \<and>
      locationTriple (site (Some (loc ''S'' 7 2)) (loc ''G1'' 10 2)) =
      locationTriple (site (Some (loc ''S'' 7 2)) (loc ''G1'' 10 5))"
    by (simp add: locationTriple_def site_def)
  from filterByUniqLocation_first_occurrence [of strict_helpers id, OF h nn] ev tr
  show ?thesis by simp
qed

text \<open>
  Claim C5, as stated, fails for a sequence with an entry that has no original location:
  with a \<^verbatim>\<open>makeBreakpointId\<close> that raises on \<^verbatim>\<open>null\<close>, nothing is kept,
  not even the first occurrence of the identity of the other entries.
\<close>

theorem filterByUniqLocation_null_entry_counterexample:
  "filterByUniqLocation strict_helpers
     [site (Some (loc ''S'' 7 2)) (loc ''G1'' 10 2), site None (loc ''G1'' 10 5),
      site (Some (loc ''S'' 7 2)) (loc ''G1'' 11 0)] = Inl TypeError"
  by (simp add: filterByUniqLocation_def uniqBy_def strict_helpers_def site_def loc_def)

text \<open>
  Claim C4, as amended. The key of an entry is \<^verbatim>\<open>makeBreakpointId\<close> of its
  \<open>location\<close> field alone, also when that field is \<^verbatim>\<open>null\<close>; the generated
  location is not looked at. If \<^verbatim>\<open>makeBreakpointId\<close> raises on the location of an
  entry, \<open>filterByUniqLocation\<close> raises the error of the first such entry. Otherwise
  it returns exactly the entries that are the first with their key, in the order of the
  input. So when it returns, of the entries without an original location it returns at
  most the first one, whatever their generated locations; and when
  \<^verbatim>\<open>makeBreakpointId\<close> raises on \<^verbatim>\<open>null\<close>, it raises on every sequence that
  has such an entry.
\<close>

theorem filterByUniqLocation_null_location:
  "filterByUniqLocation h positions =
     (case find (\<lambda>p. isl (makeBreakpointId h (location p))) positions of
        Some p \<Rightarrow> Inl (projl (makeBreakpointId h (location p)))
      | None \<Rightarrow> Inr (first_occurrences (\<lambda>p. makeBreakpointId h (location p)) positions)) \<and>
   (filterByUniqLocation h positions = Inr result \<longrightarrow>
      filter (\<lambda>p. location p = None) result = [] \<or>
      filter (\<lambda>p. location p = None) result =
        take 1 (filter (\<lambda>p. location p = None) positions)) \<and>
   (isl (makeBreakpointId h None) \<and> (\<exists>p\<in>set positions. location p = None) \<longrightarrow>
      isl (filterByUniqLocation h positions))"
proof (intro conjI impI)
  show c: "filterByUniqLocation h positions =
     (case find (\<lambda>p. isl (makeBreakpointId h (location p))) positions of
        Some p \<Rightarrow> Inl (projl (makeBreakpointId h (location p)))
      | None \<Rightarrow> Inr (first_occurrences (\<lambda>p. makeBreakpointId h (location p)) positions))"
    unfolding filterByUniqLocation_def by (rule uniqBy_characterisation)
  show "filter (\<lambda>p. location p = None) result = [] \<or>
      filter (\<lambda>p. location p = None) result =
        take 1 (filter (\<lambda>p. location p = None) positions)"
    if "filterByUniqLocation h positions = Inr result"
    using that by (rule null_entries_at_most_first)
  show "isl (filterByUniqLocation h positions)"
    if a: "isl (makeBreakpointId h None) \<and> (\<exists>p\<in>set positions. location p = None)"
  proof -
    from a obtain p where "p \<in> set positions" "isl (makeBreakpointId h (location p))" by auto
    then have "find (\<lambda>p. isl (makeBreakpointId h (location p))) positions \<noteq> None"
      by (auto simp: find_None_iff)
    then obtain q where "find (\<lambda>p. isl (makeBreakpointId h (location p))) positions = Some q"
      by auto
    with c show ?thesis by simp
  qed
qed

theorem filterByUniqLocation_null_location_witness:
  "filterByUniqLocation lenient_helpers
     [site (Some (loc ''O1'' 7 2)) (loc ''G1'' 1 0), site None (loc ''G1'' 2 0),
      site None (loc ''G1'' 3 0)] =
     Inr [site (Some (loc ''O1'' 7 2)) (loc ''G1'' 1 0), site None (loc ''G1'' 2 0)] \<and>
   filter (\<lambda>p. location p = None)
     [site (Some (loc ''O1'' 7 2)) (loc ''G1'' 1 0), site None (loc ''G1'' 2 0)] =
   take 1 (filter (\<lambda>p. location p = None)
     [site (Some (loc ''O1'' 7 2)) (loc ''G1'' 1 0), site None (loc ''G1'' 2 0),
      site None (loc ''G1'' 3 0)]) \<and>
   filterByUniqLocation strict_helpers
     [site (Some (loc ''O1'' 7 2)) (loc ''G1'' 1 0), site None (loc ''G1'' 2 0)] =
     Inl TypeError"
proof -
  note T = filterByUniqLocation_null_location [where h = lenient_helpers and positions =
      "[site (Some (loc ''O1'' 7 2)) (loc ''G1'' 1 0), site None (loc ''G1'' 2 0),
        site None (loc ''G1'' 3 0)]"
      and result = "[site (Some (loc ''O1'' 7 2)) (loc ''G1'' 1 0), site None (loc ''G1'' 2 0)]"]
  have run: "filterByUniqLocation lenient_helpers
     [site (Some (loc ''O1'' 7 2)) (loc ''G1'' 1 0), site None (loc ''G1'' 2 0),
      site None (loc ''G1'' 3 0)] =
     Inr [site (Some (loc ''O1'' 7 2)) (loc ''G1'' 1 0), site None (loc ''G1'' 2 0)]"
    unfolding T [THEN conjunct1]
    by (simp add: first_occurrences_def lenient_helpers_def site_def loc_def upt_rec)
  note S = filterByUniqLocation_null_location [where h = strict_helpers and positions =
      "[site (Some (loc ''O1'' 7 2)) (loc ''G1'' 1 0), site None (loc ''G1'' 2 0)]",
      THEN conjunct1]
  have raise: "filterByUniqLocation strict_helpers
     [site (Some (loc ''O1'' 7 2)) (loc ''G1'' 1 0), site None (loc ''G1'' 2 0)] =
     Inl TypeError"
    unfolding S by (simp add: strict_helpers_def site_def loc_def)
  from T [THEN conjunct2, THEN conjunct1, THEN mp, OF run] run raise
  show ?thesis by (simp add: site_def)
qed

text \<open>
  Claim C4, as stated, fails. Two entries without an original location and with
  different generated locations would have different fallback keys, and both would
  stay. With a \<^verbatim>\<open>makeBreakpointId\<close> that raises on \<^verbatim>\<open>null\<close> the whole
  deduplication raises; with one that returns a key for \<^verbatim>\<open>null\<close> the second
  entry is dropped.
\<close>

theorem filterByUniqLocation_fallback_counterexample:
  "filterByUniqLocation strict_helpers
     [\<lparr>location = None, generatedLocation = Some (loc ''G1'' 2 0)\<rparr>,
      \<lparr>location = None, generatedLocation = Some (loc ''G1'' 3 0)\<rparr>] = Inl TypeError \<and>
   filterByUniqLocation lenient_helpers
     [\<lparr>location = None, generatedLocation = Some (loc ''G1'' 2 0)\<rparr>,
      \<lparr>location = None, generatedLocation = Some (loc ''G1'' 3 0)\<rparr>] =
     Inr [\<lparr>location = None, generatedLocation = Some (loc ''G1'' 2 0)\<rparr>]"
  by (simp add: filterByUniqLocation_def uniqBy_def lenient_helpers_def strict_helpers_def loc_def)

subsection \<open>Array indices and doubles\<close>

text \<open>
  A line that is an array index takes its place among the array indices, and another
  one goes to the end. The successor of a line from \<open>2 ^ 53\<close> on is the nearest
  double.
\<close>

lemma number_examples:
  "tbl_set 7 [1] [(3, [0]), (4294967295, [9])] = [(3, [0]), (7, [1]), (4294967295, [9])] \<and>
   tbl_set 4294967296 [1] [(3, [0]), (4294967295, [9])] =
     [(3, [0]), (4294967295, [9]), (4294967296, [1])] \<and>
   js_add1 9007199254740994 = 9007199254740996 \<and> js_add1 18014398509481984 = 18014398509481984"
  by (simp add: js_add1_def)

section \<open>The jobs: what they change\<close>

lemmas job_defs = afterRanges_def fetchRanges_def translate_def publish_def set_pc_def
  issue_def dispatch_def getSourceFromId_def getSource_def

lemma resume_frame:
  "requests (resume h t p r s) = requests s \<and> callers (resume h t p r s) = callers s \<and>
   sources (resume h t p r s) = sources s \<and> length (tasks (resume h t p r s)) = length (tasks s)"
  by (cases p; cases r) (simp_all add: job_defs Let_def split: list.splits sum.splits option.splits)

lemma resume_other:
  "u \<noteq> t \<Longrightarrow> tasks (resume h t p r s) ! u = tasks s ! u"
  by (cases p; cases r) (simp_all add: job_defs Let_def split: list.splits sum.splits option.splits)

lemma resume_not_awaiting: "\<not> awaiting p \<Longrightarrow> resume h t p r s = s"
  by (cases p; cases r) simp_all

lemma resume_same:
  assumes "t < length (tasks s)"
  shows "t_sourceId (tasks (resume h t (t_pc (tasks s ! t)) r s) ! t) = t_sourceId (tasks s ! t) \<and>
    is_settled (t_pc (tasks (resume h t (t_pc (tasks s ! t)) r s) ! t)) = is_settled (t_pc (tasks s ! t))"
  using assms
  by (cases "t_pc (tasks s ! t)"; cases r)
     (simp_all add: job_defs Let_def split: list.splits sum.splits option.splits)

lemma resume_store:
  assumes "t < length (tasks s)"
  shows "(dispatched (resume h t (t_pc (tasks s ! t)) r s) = dispatched s \<and>
          breakpointPositions (resume h t (t_pc (tasks s ! t)) r s) = breakpointPositions s) \<or>
         (\<exists>a. dispatched (resume h t (t_pc (tasks s ! t)) r s) = dispatched s @ [(t, a)] \<and>
              t_pc (tasks (resume h t (t_pc (tasks s ! t)) r s) ! t) = Returned (Inr ()))"
  using assms
  by (cases "t_pc (tasks s ! t)"; cases r)
     (simp_all add: job_defs Let_def split: list.splits sum.splits option.splits)

lemma resume_reject:
  assumes "t < length (tasks s)" "awaiting (t_pc (tasks s ! t))"
  shows "resume h t (t_pc (tasks s ! t)) (Reject e) s = set_pc t (Returned (Inl (Rejected e))) s"
  using assms by (cases "t_pc (tasks s ! t)") simp_all

lemma start_frame:
  "requests (u_setBreakpointPositions_start h sid s) = requests s \<and>
   callers (u_setBreakpointPositions_start h sid s) = callers s \<and>
   sources (u_setBreakpointPositions_start h sid s) = sources s \<and>
   breakpointPositions (u_setBreakpointPositions_start h sid s) = breakpointPositions s \<and>
   dispatched (u_setBreakpointPositions_start h sid s) = dispatched s"
  by (simp add: u_setBreakpointPositions_start_def Let_def issue_def split: option.splits)

lemma start_tasks:
  "\<exists>p. tasks (u_setBreakpointPositions_start h sid s) =
          tasks s @ [\<lparr>t_sourceId = sid, t_pc = p\<rparr>] \<and> \<not> is_settled p \<and>
        p \<noteq> Settled (Inr ())"
  by (simp add: u_setBreakpointPositions_start_def Let_def issue_def split: option.splits)

lemma call_cached:
  assumes "breakpointPositions s sid = Some ps"
  shows "setBreakpointPositions h sid s =
     s\<lparr>callers := callers s @ [\<lparr>c_sourceId = sid, c_awaits = None, c_result = Some (Inr (Some ps))\<rparr>]\<rparr>"
  using assms
  by (simp add: setBreakpointPositions_def hasBreakpointPositions_def
      getBreakpointPositionsForSource_def)

lemma call_registered:
  assumes "breakpointPositions s sid = None" "requests s sid = Some t"
  shows "setBreakpointPositions h sid s =
     s\<lparr>callers := callers s @ [\<lparr>c_sourceId = sid, c_awaits = Some t, c_result = None\<rparr>]\<rparr>"
  using assms
  by (simp add: setBreakpointPositions_def hasBreakpointPositions_def)

lemma call_fresh:
  assumes "breakpointPositions s sid = None" "requests s sid = None"
  shows "setBreakpointPositions h sid s =
     (u_setBreakpointPositions_start h sid s)
       \<lparr>requests := (requests s)(sid \<mapsto> length (tasks s)),
        callers := callers s @
          [\<lparr>c_sourceId = sid, c_awaits = Some (length (tasks s)), c_result = None\<rparr>]\<rparr>"
  using assms
  by (simp add: setBreakpointPositions_def hasBreakpointPositions_def Let_def start_frame)

lemma run_append: "run h (es @ es') s = run h es' (run h es s)"
  by (induction es arbitrary: s) simp_all

section \<open>The invariants hold in every reachable state\<close>

lemma wf_init: "wf init"
  by (simp add: wf_def inv_req_def inv_reg_def inv_call_def inv_same_def inv_disp_def init_def)

lemma inv_callers_append:
  assumes "wf s" "tasks s' = tasks s" "requests s' = requests s" "dispatched s' = dispatched s"
    "callers s' = callers s @ [c]"
    "\<And>t. c_awaits c = Some t \<Longrightarrow> requests s (c_sourceId c) = Some t \<and> c_result c = None"
  shows "wf s'"
proof -
  have nores: "c_result c' = None" if "c' \<in> set (callers s)" "c_awaits c' = c_awaits c" "c_awaits c \<noteq> None" for c'
  proof -
    from that(3) obtain t where t: "c_awaits c = Some t" by auto
    with assms(6) have "requests s (c_sourceId c) = Some t" by simp
    with assms(1) have "\<not> is_settled (t_pc (tasks s ! t))" unfolding wf_def inv_req_def by blast
    with assms(1) that t show ?thesis unfolding wf_def inv_call_def by metis
  qed
  have "inv_req s'" using assms(1-3) by (simp add: wf_def inv_req_def)
  moreover have "inv_reg s'" using assms(1-3) by (simp add: wf_def inv_reg_def)
  moreover have "inv_disp s'" using assms(1,2,4) by (simp add: wf_def inv_disp_def)
  moreover have "inv_call s'"
    unfolding inv_call_def
  proof (intro ballI allI impI)
    fix c' t assume c': "c' \<in> set (callers s')" and a: "c_awaits c' = Some t"
    show "t < length (tasks s') \<and> t_sourceId (tasks s' ! t) = c_sourceId c' \<and>
        (c_result c' \<noteq> None \<longrightarrow> is_settled (t_pc (tasks s' ! t)))"
    proof (cases "c' = c")
      case True
      with a assms(6) have "requests s (c_sourceId c) = Some t" "c_result c = None" by simp_all
      with assms(1) True show ?thesis unfolding wf_def inv_req_def assms(2) by auto
    next
      case False
      with c' assms(5) have "c' \<in> set (callers s)" by simp
      with assms(1) a show ?thesis unfolding wf_def inv_call_def assms(2) by blast
    qed
  qed
  moreover have "inv_same s'"
    unfolding inv_same_def
  proof (intro ballI impI)
    fix c1 c2 assume c1: "c1 \<in> set (callers s')" and c2: "c2 \<in> set (callers s')"
      and a: "c_awaits c1 = c_awaits c2 \<and> c_awaits c1 \<noteq> None"
    from c1 c2 assms(5) have m: "c1 \<in> set (callers s) \<or> c1 = c" "c2 \<in> set (callers s) \<or> c2 = c" by auto
    from assms(1) have same: "\<And>a b. a \<in> set (callers s) \<Longrightarrow> b \<in> set (callers s) \<Longrightarrow>
       c_awaits a = c_awaits b \<Longrightarrow> c_awaits a \<noteq> None \<Longrightarrow> c_result a = c_result b"
      unfolding wf_def inv_same_def by blast
    have cn: "c_result c = None" if "c1 = c \<or> c2 = c"
    proof -
      from that a obtain t where "c_awaits c = Some t" by (cases "c_awaits c") auto
      with assms(6) show ?thesis by simp
    qed
    show "c_result c1 = c_result c2"
      using m same [of c1 c2] nores [of c1] nores [of c2] a cn by metis
  qed
  ultimately show ?thesis by (simp add: wf_def)
qed

lemma wf_fresh:
  assumes wf: "wf s" and none: "requests s sid = None"
    and t': "tasks s' = tasks s @ [\<lparr>t_sourceId = sid, t_pc = p\<rparr>]" and p: "\<not> is_settled p"
    and r': "requests s' = (requests s)(sid \<mapsto> length (tasks s))"
    and c': "callers s' = callers s @
          [\<lparr>c_sourceId = sid, c_awaits = Some (length (tasks s)), c_result = None\<rparr>]"
    and d': "dispatched s' = dispatched s"
  shows "wf s'"
proof -
  have old: "t < length (tasks s)" if "c \<in> set (callers s)" "c_awaits c = Some t" for c t
    using wf that unfolding wf_def inv_call_def by blast
  have req: "t < length (tasks s) \<and> t_sourceId (tasks s ! t) = sid' \<and>
      \<not> is_settled (t_pc (tasks s ! t))" if "requests s sid' = Some t" for sid' t
    using wf that unfolding wf_def inv_req_def by blast
  have reg: "requests s (t_sourceId (tasks s ! t)) = Some t"
    if "t < length (tasks s)" "\<not> is_settled (t_pc (tasks s ! t))" for t
    using wf that unfolding wf_def inv_reg_def by blast
  have "inv_req s'"
    unfolding inv_req_def
  proof (intro allI impI)
    fix sid' t assume a: "requests s' sid' = Some t"
    show "t < length (tasks s') \<and> t_sourceId (tasks s' ! t) = sid' \<and>
        \<not> is_settled (t_pc (tasks s' ! t))"
    proof (cases "sid' = sid")
      case True
      with a r' have "t = length (tasks s)" by simp
      with True p show ?thesis by (simp add: t')
    next
      case False
      with a r' have "requests s sid' = Some t" by simp
      from req [OF this] show ?thesis by (simp add: t' nth_append)
    qed
  qed
  moreover have "inv_reg s'"
    unfolding inv_reg_def
  proof (intro allI impI)
    fix t assume a: "t < length (tasks s')" "\<not> is_settled (t_pc (tasks s' ! t))"
    show "requests s' (t_sourceId (tasks s' ! t)) = Some t"
    proof (cases "t < length (tasks s)")
      case True
      with a have "requests s (t_sourceId (tasks s ! t)) = Some t"
        using reg by (simp add: t' nth_append)
      moreover from this none have "t_sourceId (tasks s ! t) \<noteq> sid" by auto
      ultimately show ?thesis using True by (simp add: t' r' nth_append)
    next
      case False
      with a(1) have "t = length (tasks s)" by (simp add: t')
      then show ?thesis by (simp add: t' r')
    qed
  qed
  moreover have "inv_call s'"
    unfolding inv_call_def
  proof (intro ballI allI impI)
    fix c t assume c: "c \<in> set (callers s')" and a: "c_awaits c = Some t"
    show "t < length (tasks s') \<and> t_sourceId (tasks s' ! t) = c_sourceId c \<and>
        (c_result c \<noteq> None \<longrightarrow> is_settled (t_pc (tasks s' ! t)))"
    proof (cases "c \<in> set (callers s)")
      case True
      with wf a have "t < length (tasks s) \<and> t_sourceId (tasks s ! t) = c_sourceId c \<and>
        (c_result c \<noteq> None \<longrightarrow> is_settled (t_pc (tasks s ! t)))"
        unfolding wf_def inv_call_def by blast
      then show ?thesis by (simp add: t' nth_append)
    next
      case False
      with c c' have "c = \<lparr>c_sourceId = sid, c_awaits = Some (length (tasks s)), c_result = None\<rparr>"
        by simp
      with a show ?thesis by (auto simp: t')
    qed
  qed
  moreover have "inv_same s'"
    unfolding inv_same_def
  proof (intro ballI impI)
    fix c1 c2 assume c1: "c1 \<in> set (callers s')" and c2: "c2 \<in> set (callers s')"
      and a: "c_awaits c1 = c_awaits c2 \<and> c_awaits c1 \<noteq> None"
    let ?c = "\<lparr>c_sourceId = sid, c_awaits = Some (length (tasks s)), c_result = None\<rparr>"
    from c1 c2 c' have m: "c1 \<in> set (callers s) \<or> c1 = ?c" "c2 \<in> set (callers s) \<or> c2 = ?c"
      by auto
    from wf have same: "\<And>a b. a \<in> set (callers s) \<Longrightarrow> b \<in> set (callers s) \<Longrightarrow>
       c_awaits a = c_awaits b \<Longrightarrow> c_awaits a \<noteq> None \<Longrightarrow> c_result a = c_result b"
      unfolding wf_def inv_same_def by blast
    have ne: "c_awaits x \<noteq> Some (length (tasks s))" if "x \<in> set (callers s)" for x
      using old [OF that] by fastforce
    show "c_result c1 = c_result c2"
    proof (cases "c1 = ?c")
      case True
      with a have "c_awaits c2 = Some (length (tasks s))" by simp
      with ne m(2) have "c2 = ?c" by blast
      with True show ?thesis by simp
    next
      case False
      with m(1) have i1: "c1 \<in> set (callers s)" by simp
      show ?thesis
      proof (cases "c2 = ?c")
        case True
        with a have "c_awaits c1 = Some (length (tasks s))" by simp
        with ne [OF i1] show ?thesis by simp
      next
        case False
        with m(2) have "c2 \<in> set (callers s)" by simp
        with same i1 a show ?thesis by blast
      qed
    qed
  qed
  moreover have "inv_disp s'"
    unfolding inv_disp_def
  proof (clarify)
    fix u a assume "(u, a) \<in> set (dispatched s')"
    with wf d' have "u < length (tasks s) \<and>
        t_pc (tasks s ! u) \<in> {Returned (Inr ()), Settled (Inr ())}"
      unfolding wf_def inv_disp_def by auto
    then show "u < length (tasks s') \<and>
        t_pc (tasks s' ! u) \<in> {Returned (Inr ()), Settled (Inr ())}"
      by (simp add: t' nth_append)
  qed
  ultimately show ?thesis by (simp add: wf_def)
qed

lemma wf_task_update:
  assumes wf: "wf s" and t: "t < length (tasks s)"
    and r': "requests s' = requests s" and c': "callers s' = callers s"
    and len: "length (tasks s') = length (tasks s)"
    and other: "\<And>u. u \<noteq> t \<Longrightarrow> tasks s' ! u = tasks s ! u"
    and sid: "t_sourceId (tasks s' ! t) = t_sourceId (tasks s ! t)"
    and settled: "is_settled (t_pc (tasks s' ! t)) = is_settled (t_pc (tasks s ! t))"
    and disp: "dispatched s' = dispatched s \<and>
               (t_pc (tasks s' ! t) = t_pc (tasks s ! t) \<or> awaiting (t_pc (tasks s ! t))) \<or>
       (\<exists>a. dispatched s' = dispatched s @ [(t, a)] \<and> t_pc (tasks s' ! t) = Returned (Inr ()) \<and>
            awaiting (t_pc (tasks s ! t)))"
  shows "wf s'"
proof -
  have same_sid: "t_sourceId (tasks s' ! u) = t_sourceId (tasks s ! u)" for u
    using other sid by (cases "u = t") simp_all
  have same_settled: "is_settled (t_pc (tasks s' ! u)) = is_settled (t_pc (tasks s ! u))" for u
    using other settled by (cases "u = t") simp_all
  have "inv_req s'"
    using wf unfolding wf_def inv_req_def r' len same_sid same_settled by blast
  moreover have "inv_reg s'"
    using wf unfolding wf_def inv_reg_def r' len same_sid same_settled by blast
  moreover have "inv_call s'"
    using wf unfolding wf_def inv_call_def c' len same_sid same_settled by blast
  moreover have "inv_same s'"
    using wf unfolding wf_def inv_same_def c' by blast
  moreover have "inv_disp s'"
    unfolding inv_disp_def
  proof (clarify)
    fix u a assume ua: "(u, a) \<in> set (dispatched s')"
    have olddisp: "u < length (tasks s) \<and> t_pc (tasks s ! u) \<in> {Returned (Inr ()), Settled (Inr ())}"
      if "(u, a) \<in> set (dispatched s)"
      using wf that unfolding wf_def inv_disp_def by blast
    have keep: "t_pc (tasks s' ! u) = t_pc (tasks s ! u)" if "(u, a) \<in> set (dispatched s)"
    proof (cases "u = t")
      case True
      from olddisp [OF that] True have "\<not> awaiting (t_pc (tasks s ! t))" by auto
      with disp True show ?thesis by auto
    next
      case False
      then show ?thesis using other by simp
    qed
    from disp ua have "(u, a) \<in> set (dispatched s) \<or> (u = t \<and> t_pc (tasks s' ! t) = Returned (Inr ()))"
      by auto
    then show "u < length (tasks s') \<and> t_pc (tasks s' ! u) \<in> {Returned (Inr ()), Settled (Inr ())}"
      using olddisp keep t len by auto
  qed
  ultimately show ?thesis by (simp add: wf_def)
qed

lemma wf_resume:
  assumes "wf s" "t < length (tasks s)"
  shows "wf (resume h t (t_pc (tasks s ! t)) r s)"
proof (cases "awaiting (t_pc (tasks s ! t))")
  case False
  then show ?thesis using assms(1) by (simp add: resume_not_awaiting)
next
  case True
  show ?thesis
  proof (rule wf_task_update [OF assms])
    show "dispatched (resume h t (t_pc (tasks s ! t)) r s) = dispatched s \<and>
      (t_pc (tasks (resume h t (t_pc (tasks s ! t)) r s) ! t) = t_pc (tasks s ! t) \<or>
       awaiting (t_pc (tasks s ! t))) \<or>
      (\<exists>a. dispatched (resume h t (t_pc (tasks s ! t)) r s) = dispatched s @ [(t, a)] \<and>
           t_pc (tasks (resume h t (t_pc (tasks s ! t)) r s) ! t) = Returned (Inr ()) \<and>
           awaiting (t_pc (tasks s ! t)))"
      using resume_store [OF assms(2), of h r] True by blast
  qed (simp_all add: resume_frame resume_other resume_same [OF assms(2)])
qed

lemma wf_settle:
  assumes wf: "wf s" and t: "t < length (tasks s)"
  shows "wf (settle t s)"
proof (cases "t_pc (tasks s ! t)")
  case (Returned r)
  let ?sid = "t_sourceId (tasks s ! t)"
  let ?s' = "settle t s"
  have s': "?s' = s\<lparr>requests := (requests s)(?sid := None),
                    tasks := (tasks s)[t := (tasks s ! t)\<lparr>t_pc := Settled r\<rparr>]\<rparr>"
    using Returned by (simp add: settle_def set_pc_def)
  have tk: "tasks ?s' = (tasks s)[t := (tasks s ! t)\<lparr>t_pc := Settled r\<rparr>]"
    and rq: "requests ?s' = (requests s)(?sid := None)"
    and cl: "callers ?s' = callers s" and dp: "dispatched ?s' = dispatched s"
    unfolding s' by simp_all
  have req: "u < length (tasks s) \<and> t_sourceId (tasks s ! u) = sid' \<and>
      \<not> is_settled (t_pc (tasks s ! u))" if "requests s sid' = Some u" for sid' u
    using wf that unfolding wf_def inv_req_def by blast
  have reg: "requests s (t_sourceId (tasks s ! u)) = Some u"
    if "u < length (tasks s)" "\<not> is_settled (t_pc (tasks s ! u))" for u
    using wf that unfolding wf_def inv_reg_def by blast
  have mine: "requests s ?sid = Some t"
    using reg [OF t] Returned by simp
  have "inv_req ?s'"
    unfolding inv_req_def
  proof (intro allI impI)
    fix sid' u assume a: "requests ?s' sid' = Some u"
    then have ne: "sid' \<noteq> ?sid" and old: "requests s sid' = Some u"
      unfolding rq by (auto split: if_splits)
    from req [OF old] ne have "u \<noteq> t" by auto
    with req [OF old] show "u < length (tasks ?s') \<and> t_sourceId (tasks ?s' ! u) = sid' \<and>
        \<not> is_settled (t_pc (tasks ?s' ! u))"
      unfolding tk by simp
  qed
  moreover have "inv_reg ?s'"
    unfolding inv_reg_def
  proof (intro allI impI)
    fix u assume a: "u < length (tasks ?s')" "\<not> is_settled (t_pc (tasks ?s' ! u))"
    then have ut: "u \<noteq> t" using t unfolding tk by auto
    with a have u: "u < length (tasks s)" "\<not> is_settled (t_pc (tasks s ! u))"
      unfolding tk by simp_all
    from reg [OF u] mine ut have "t_sourceId (tasks s ! u) \<noteq> ?sid" by auto
    with reg [OF u] ut show "requests ?s' (t_sourceId (tasks ?s' ! u)) = Some u"
      unfolding tk rq by simp
  qed
  moreover have "inv_call ?s'"
    unfolding inv_call_def cl
  proof (intro ballI allI impI)
    fix c u assume "c \<in> set (callers s)" "c_awaits c = Some u"
    with wf have "u < length (tasks s) \<and> t_sourceId (tasks s ! u) = c_sourceId c \<and>
        (c_result c \<noteq> None \<longrightarrow> is_settled (t_pc (tasks s ! u)))"
      unfolding wf_def inv_call_def by blast
    then show "u < length (tasks ?s') \<and> t_sourceId (tasks ?s' ! u) = c_sourceId c \<and>
        (c_result c \<noteq> None \<longrightarrow> is_settled (t_pc (tasks ?s' ! u)))"
      unfolding tk by (cases "u = t") auto
  qed
  moreover have "inv_same ?s'"
    using wf unfolding wf_def inv_same_def cl by blast
  moreover have "inv_disp ?s'"
    unfolding inv_disp_def dp
  proof (clarify)
    fix u a assume "(u, a) \<in> set (dispatched s)"
    with wf have "u < length (tasks s) \<and>
        t_pc (tasks s ! u) \<in> {Returned (Inr ()), Settled (Inr ())}"
      unfolding wf_def inv_disp_def by auto
    then show "u < length (tasks ?s') \<and>
        t_pc (tasks ?s' ! u) \<in> {Returned (Inr ()), Settled (Inr ())}"
      unfolding tk using Returned by (cases "u = t") auto
  qed
  ultimately show ?thesis by (simp add: wf_def)
qed (use wf in \<open>simp_all add: settle_def\<close>)

lemma wf_deliver:
  assumes wf: "wf s" and t: "t < length (tasks s)"
  shows "wf (deliver t s)"
proof (cases "t_pc (tasks s ! t)")
  case (Settled r)
  let ?s' = "deliver t s"
  have s': "?s' = s\<lparr>callers := map (deliver_to s t r) (callers s)\<rparr>"
    using Settled by (simp add: deliver_def)
  have aw: "c_awaits (deliver_to s t r c) = c_awaits c"
    and si: "c_sourceId (deliver_to s t r c) = c_sourceId c" for c
    by (simp_all add: deliver_to_def)
  have "inv_req ?s'" using wf unfolding s' by (simp add: wf_def inv_req_def)
  moreover have "inv_reg ?s'" using wf unfolding s' by (simp add: wf_def inv_reg_def)
  moreover have "inv_disp ?s'" using wf unfolding s' by (simp add: wf_def inv_disp_def)
  moreover have "inv_call ?s'"
    unfolding inv_call_def
  proof (intro ballI allI impI)
    fix c' u assume "c' \<in> set (callers ?s')" and a: "c_awaits c' = Some u"
    then obtain c where c: "c \<in> set (callers s)" "c' = deliver_to s t r c"
      unfolding s' by auto
    from a c(2) have au: "c_awaits c = Some u" by (simp add: aw)
    with c(1) wf have o: "u < length (tasks s) \<and> t_sourceId (tasks s ! u) = c_sourceId c \<and>
        (c_result c \<noteq> None \<longrightarrow> is_settled (t_pc (tasks s ! u)))"
      unfolding wf_def inv_call_def by blast
    have "is_settled (t_pc (tasks s ! u))" if "c_result c' \<noteq> None"
      using that o c(2) au Settled by (auto simp: deliver_to_def split: if_splits)
    with o c(2) show "u < length (tasks ?s') \<and> t_sourceId (tasks ?s' ! u) = c_sourceId c' \<and>
        (c_result c' \<noteq> None \<longrightarrow> is_settled (t_pc (tasks ?s' ! u)))"
      unfolding s' by (simp add: si)
  qed
  moreover have "inv_same ?s'"
    unfolding inv_same_def
  proof (intro ballI impI)
    fix c1' c2' assume "c1' \<in> set (callers ?s')" "c2' \<in> set (callers ?s')"
      and a: "c_awaits c1' = c_awaits c2' \<and> c_awaits c1' \<noteq> None"
    then obtain c1 c2 where c: "c1 \<in> set (callers s)" "c1' = deliver_to s t r c1"
      "c2 \<in> set (callers s)" "c2' = deliver_to s t r c2"
      unfolding s' by auto
    from a have aw12: "c_awaits c1 = c_awaits c2" "c_awaits c1 \<noteq> None"
      unfolding c aw by blast+
    with wf c have res: "c_result c1 = c_result c2"
      unfolding wf_def inv_same_def by blast
    from aw12(2) obtain u where u1: "c_awaits c1 = Some u" by blast
    with aw12(1) have u: "c_awaits c1 = Some u" "c_awaits c2 = Some u" by simp_all
    from wf c(1) u(1) have "t_sourceId (tasks s ! u) = c_sourceId c1"
      unfolding wf_def inv_call_def by blast
    moreover from wf c(3) u(2) have "t_sourceId (tasks s ! u) = c_sourceId c2"
      unfolding wf_def inv_call_def by blast
    ultimately have "c_sourceId c1 = c_sourceId c2" by simp
    with res aw12 show "c_result c1' = c_result c2'"
      unfolding c by (auto simp: deliver_to_def split: sum.splits)
  qed
  ultimately show ?thesis by (simp add: wf_def)
qed (use wf in \<open>simp_all add: deliver_def\<close>)

lemma wf_sources:
  assumes "wf s" shows "wf (s\<lparr>sources := m\<rparr>)"
proof -
  have "inv_req (s\<lparr>sources := m\<rparr>) = inv_req s" by (simp add: inv_req_def)
  moreover have "inv_reg (s\<lparr>sources := m\<rparr>) = inv_reg s" by (simp add: inv_reg_def)
  moreover have "inv_call (s\<lparr>sources := m\<rparr>) = inv_call s" by (simp add: inv_call_def)
  moreover have "inv_same (s\<lparr>sources := m\<rparr>) = inv_same s" by (simp add: inv_same_def)
  moreover have "inv_disp (s\<lparr>sources := m\<rparr>) = inv_disp s" by (simp add: inv_disp_def)
  ultimately show ?thesis using assms by (simp add: wf_def)
qed

lemma wf_call: assumes "wf s" shows "wf (setBreakpointPositions h sid s)"
proof (cases "breakpointPositions s sid")
  case (Some ps)
  show ?thesis
    by (rule inv_callers_append [OF assms, where c = "\<lparr>c_sourceId = sid, c_awaits = None,
          c_result = Some (Inr (Some ps))\<rparr>"]) (simp_all add: call_cached [OF Some])
next
  case None
  show ?thesis
  proof (cases "requests s sid")
    case (Some t)
    show ?thesis
      by (rule inv_callers_append [OF assms, where c = "\<lparr>c_sourceId = sid, c_awaits = Some t,
          c_result = None\<rparr>"]) (simp_all add: call_registered [OF None Some] Some)
  next
    case none: None
    obtain p where p: "tasks (u_setBreakpointPositions_start h sid s) =
        tasks s @ [\<lparr>t_sourceId = sid, t_pc = p\<rparr>]" "\<not> is_settled p"
      using start_tasks by blast
    show ?thesis
      by (rule wf_fresh [OF assms none _ p(2)])
         (simp_all add: call_fresh [OF None none] p(1) start_frame)
  qed
qed

lemma wf_step: "wf s \<Longrightarrow> wf (step h e s)"
  by (cases e) (simp_all add: wf_call wf_resume wf_settle wf_deliver wf_sources)

lemma wf_run: "wf s \<Longrightarrow> wf (run h es s)"
  by (induction es arbitrary: s) (simp_all add: wf_step)







section \<open>The claims about the calls and the tasks\<close>

lemmas eval_defs = setBreakpointPositions_def hasBreakpointPositions_def
  getBreakpointPositionsForSource_def u_setBreakpointPositions_start_def job_defs settle_def
  deliver_def deliver_to_def init_def Let_def strict_helpers_def lenient_helpers_def
  filterByUniqLocation_def uniqBy_def mapLocations_def convertToList_def mergeBps_def
  tbl_get_def wrapInfiniteEnd_def js_add1_def loc_def G1_def O1_def

lemma start_absent:
  "sources s sid = None \<Longrightarrow>
     u_setBreakpointPositions_start h sid s =
       s\<lparr>tasks := tasks s @ [\<lparr>t_sourceId = sid, t_pc = Returned (Inr ())\<rparr>]\<rparr>"
  by (simp add: u_setBreakpointPositions_start_def getSource_def)

lemma start_present:
  "sources s sid = Some source \<Longrightarrow>
     u_setBreakpointPositions_start h sid s =
       s\<lparr>tasks := tasks s @ [\<lparr>t_sourceId = sid,
              t_pc = (if isOriginalId h sid then AwaitRanges else AwaitAll source)\<rparr>],
         calls := calls s @ [(length (tasks s),
              if isOriginalId h sid then GetGeneratedRangesForOriginal sid (src_url source) True
              else GetBreakpointPositions source None)]\<rparr>"
  by (simp add: u_setBreakpointPositions_start_def getSource_def issue_def)

lemma call_effect:
  "\<exists>c ts. callers (setBreakpointPositions h sid s) = callers s @ [c] \<and>
          (c_result c = None \<or> c_awaits c = None) \<and>
          tasks (setBreakpointPositions h sid s) = tasks s @ ts \<and>
          dispatched (setBreakpointPositions h sid s) = dispatched s"
proof (cases "breakpointPositions s sid")
  case (Some ps)
  then show ?thesis by (simp add: call_cached)
next
  case None
  show ?thesis
  proof (cases "requests s sid")
    case (Some t)
    with None show ?thesis by (simp add: call_registered)
  next
    case none: None
    from start_tasks [of h sid s] obtain p where
      "tasks (u_setBreakpointPositions_start h sid s) = tasks s @ [\<lparr>t_sourceId = sid, t_pc = p\<rparr>]"
      by blast
    with None none show ?thesis by (simp add: call_fresh start_frame)
  qed
qed

lemma fresh_call:
  assumes "requests s sid = None" "breakpointPositions s sid = None"
  shows "requests (step h (Call sid) s) sid = Some (length (tasks s)) \<and>
     tasks (step h (Call sid) s) = tasks s @
       [\<lparr>t_sourceId = sid,
         t_pc = (case sources s sid of
                   None \<Rightarrow> Returned (Inr ())
                 | Some source \<Rightarrow> if isOriginalId h sid then AwaitRanges else AwaitAll source)\<rparr>] \<and>
     calls (step h (Call sid) s) = calls s @
       (case sources s sid of
          None \<Rightarrow> []
        | Some source \<Rightarrow>
            [(length (tasks s),
              if isOriginalId h sid then GetGeneratedRangesForOriginal sid (src_url source) True
              else GetBreakpointPositions source None)])"
  using assms
  by (cases "sources s sid") (simp_all add: call_fresh start_absent start_present)



text \<open>
  The example of the spec runs as the spec says: one request for the ranges, one for the
  positions in the wrapped range and one for the original locations; the three
  positions are dispatched for the original source, the registration is removed, and
  the call returns them.
\<close>

lemma end_to_end:
  "calls (run strict_helpers end_to_end_trace init) =
     [(0, GetGeneratedRangesForOriginal ''O1'' ''O1.js'' True),
      (0, GetBreakpointPositions G1
            (Some \<lparr>range_start = \<lparr>pos_line = 10, pos_column = 0\<rparr>,
                   range_end = \<lparr>pos_line = 13, pos_column = 0\<rparr>\<rparr>)),
      (0, GetOriginalLocations [loc ''G1'' 10 2, loc ''G1'' 10 5, loc ''G1'' 11 0])] \<and>
   dispatched (run strict_helpers end_to_end_trace init) =
     [(0, \<lparr>act_source = O1, act_positions =
            [site (Some (loc ''O1'' 7 0)) (loc ''G1'' 10 2),
             site (Some (loc ''O1'' 7 1)) (loc ''G1'' 10 5),
             site (Some (loc ''O1'' 7 2)) (loc ''G1'' 11 0)]\<rparr>)] \<and>
   callers (run strict_helpers end_to_end_trace init) =
     [\<lparr>c_sourceId = ''O1'', c_awaits = Some 0,
       c_result = Some (Inr (Some
            [site (Some (loc ''O1'' 7 0)) (loc ''G1'' 10 2),
             site (Some (loc ''O1'' 7 1)) (loc ''G1'' 10 5),
             site (Some (loc ''O1'' 7 2)) (loc ''G1'' 11 0)]))\<rparr>] \<and>
   requests (run strict_helpers end_to_end_trace init) ''O1'' = None"
  by (simp add: end_to_end_trace_def eval_defs site_def)

subsection \<open>The loop over the ranges\<close>

lemma reply_ranges:
  assumes "t < length (tasks s)" "t_pc (tasks s ! t) = AwaitRanges"
    and "sources s (originalToGeneratedId h (t_sourceId (tasks s ! t))) = Some generatedSource"
  shows "step h (Reply t (Ranges ranges)) s = fetchRanges t generatedSource ranges [] s"
  using assms by (simp add: afterRanges_def getSourceFromId_def getSource_def)

lemma reply_positions:
  assumes "t < length (tasks s)" "t_pc (tasks s ! t) = AwaitBps generatedSource ranges results"
  shows "step h (Reply t (Positions bps)) s =
         fetchRanges t generatedSource ranges (mergeBps bps results) s"
  using assms by simp

lemma fetchRanges_Cons:
  assumes "t < length (tasks s)"
  shows "calls (fetchRanges t generatedSource (rng # rest) results s) =
           calls s @ [(t, GetBreakpointPositions generatedSource (Some (wrapInfiniteEnd rng)))] \<and>
         t_pc (tasks (fetchRanges t generatedSource (rng # rest) results s) ! t) =
           AwaitBps generatedSource rest results \<and>
         length (tasks (fetchRanges t generatedSource (rng # rest) results s)) = length (tasks s)"
  using assms by (simp add: fetchRanges_def set_pc_def issue_def)

lemma fetch_loop:
  "t < length (tasks s) \<Longrightarrow> length tables = length ranges \<Longrightarrow>
   calls (run h (map (\<lambda>bps. Reply t (Positions bps)) tables)
            (fetchRanges t generatedSource ranges results s)) =
     calls s @
     map (\<lambda>rng. (t, GetBreakpointPositions generatedSource (Some (wrapInfiniteEnd rng)))) ranges @
     [(t, GetOriginalLocations (convertToList (fold mergeBps tables results) generatedSource))]"
proof (induction ranges arbitrary: tables results s)
  case Nil
  then show ?case by (simp add: fetchRanges_def translate_def set_pc_def issue_def Let_def)
next
  case (Cons rng rest)
  from Cons.prems(2) obtain bps tables' where tables: "tables = bps # tables'"
    and len: "length tables' = length rest"
    by (cases tables) auto
  let ?s1 = "fetchRanges t generatedSource (rng # rest) results s"
  note f = fetchRanges_Cons [OF Cons.prems(1), of generatedSource rng rest results]
  from f have t1: "t < length (tasks ?s1)" using Cons.prems(1) by simp
  from f have pc1: "t_pc (tasks ?s1 ! t) = AwaitBps generatedSource rest results" by simp
  have "step h (Reply t (Positions bps)) ?s1 =
      fetchRanges t generatedSource rest (mergeBps bps results) ?s1"
    using t1 pc1 by (rule reply_positions)
  with Cons.IH [OF t1 len, of "mergeBps bps results"] f
  show ?case by (simp add: tables)
qed

text \<open>
  Claim C7. On the path of an original source, when the ranges arrive the client is
  asked for the positions in \<open>wrapInfiniteEnd\<close> of the first range, and each time the
  positions of a range arrive it is asked for the positions in \<open>wrapInfiniteEnd\<close> of
  the next one. So when the answers follow one another, the requests to the client are
  those for \<open>wrapInfiniteEnd\<close> of every range, in the order of the ranges, followed by
  the request for the original locations. When the end column of a range is infinite,
  \<open>wrapInfiniteEnd\<close> of it is the range with the end replaced by column 0 of the
  line \<^verbatim>\<open>end.line + 1\<close>; when it is finite, it is the range itself. The sum is that
  of JavaScript, which is the next line for every line below \<open>2 ^ 53\<close>.
\<close>

theorem wrapInfiniteEnd_before_fetch:
  "(t < length (tasks s) \<and> t_pc (tasks s ! t) = AwaitRanges \<and>
    sources s (originalToGeneratedId h (t_sourceId (tasks s ! t))) = Some generatedSource \<longrightarrow>
      calls (step h (Reply t (Ranges (rng # rest))) s) =
        calls s @ [(t, GetBreakpointPositions generatedSource (Some (wrapInfiniteEnd rng)))] \<and>
      t_pc (tasks (step h (Reply t (Ranges (rng # rest))) s) ! t) =
        AwaitBps generatedSource rest []) \<and>
   (t < length (tasks s) \<and>
    t_pc (tasks s ! t) = AwaitBps generatedSource (rng # rest) results \<longrightarrow>
      calls (step h (Reply t (Positions bps)) s) =
        calls s @ [(t, GetBreakpointPositions generatedSource (Some (wrapInfiniteEnd rng)))] \<and>
      t_pc (tasks (step h (Reply t (Positions bps)) s) ! t) =
        AwaitBps generatedSource rest (mergeBps bps results)) \<and>
   (t < length (tasks s) \<and> t_pc (tasks s ! t) = AwaitRanges \<and>
    sources s (originalToGeneratedId h (t_sourceId (tasks s ! t))) = Some generatedSource \<and>
    length tables = length ranges \<longrightarrow>
      calls (run h (Reply t (Ranges ranges) # map (\<lambda>bps. Reply t (Positions bps)) tables) s) =
        calls s @
        map (\<lambda>rng. (t, GetBreakpointPositions generatedSource (Some (wrapInfiniteEnd rng)))) ranges @
        [(t, GetOriginalLocations (convertToList (fold mergeBps tables []) generatedSource))]) \<and>
   (pos_column (range_end rng) = \<infinity> \<longrightarrow>
      wrapInfiniteEnd rng =
        \<lparr>range_start = range_start rng,
         range_end = \<lparr>pos_line = js_add1 (pos_line (range_end rng)), pos_column = 0\<rparr>\<rparr>) \<and>
   (pos_column (range_end rng) \<noteq> \<infinity> \<longrightarrow> wrapInfiniteEnd rng = rng) \<and>
   (n < 2 ^ 53 \<longrightarrow> js_add1 n = n + 1)"
proof (intro conjI impI)
  assume a: "t < length (tasks s) \<and> t_pc (tasks s ! t) = AwaitRanges \<and>
    sources s (originalToGeneratedId h (t_sourceId (tasks s ! t))) = Some generatedSource"
  then have st: "step h (Reply t (Ranges (rng # rest))) s =
      fetchRanges t generatedSource (rng # rest) [] s"
    by (intro reply_ranges) simp_all
  from a have t: "t < length (tasks s)" by simp
  note f = fetchRanges_Cons [OF t, of generatedSource rng rest "[]"]
  from f show "calls (step h (Reply t (Ranges (rng # rest))) s) =
      calls s @ [(t, GetBreakpointPositions generatedSource (Some (wrapInfiniteEnd rng)))]"
    unfolding st by (rule conjunct1)
  from f show "t_pc (tasks (step h (Reply t (Ranges (rng # rest))) s) ! t) =
      AwaitBps generatedSource rest []"
    unfolding st by (rule conjunct2 [THEN conjunct1])
next
  assume a: "t < length (tasks s) \<and>
    t_pc (tasks s ! t) = AwaitBps generatedSource (rng # rest) results"
  then have st: "step h (Reply t (Positions bps)) s =
      fetchRanges t generatedSource (rng # rest) (mergeBps bps results) s"
    by (intro reply_positions) simp_all
  from a have t: "t < length (tasks s)" by simp
  note f = fetchRanges_Cons [OF t, of generatedSource rng rest "mergeBps bps results"]
  from f show "calls (step h (Reply t (Positions bps)) s) =
      calls s @ [(t, GetBreakpointPositions generatedSource (Some (wrapInfiniteEnd rng)))]"
    unfolding st by (rule conjunct1)
  from f show "t_pc (tasks (step h (Reply t (Positions bps)) s) ! t) =
      AwaitBps generatedSource rest (mergeBps bps results)"
    unfolding st by (rule conjunct2 [THEN conjunct1])
next
  assume a: "t < length (tasks s) \<and> t_pc (tasks s ! t) = AwaitRanges \<and>
    sources s (originalToGeneratedId h (t_sourceId (tasks s ! t))) = Some generatedSource \<and>
    length tables = length ranges"
  then have st: "step h (Reply t (Ranges ranges)) s = fetchRanges t generatedSource ranges [] s"
    by (intro reply_ranges) simp_all
  from a have "t < length (tasks s)" "length tables = length ranges" by simp_all
  from fetch_loop [OF this, of h generatedSource "[]"]
  show "calls (run h (Reply t (Ranges ranges) # map (\<lambda>bps. Reply t (Positions bps)) tables) s) =
      calls s @
      map (\<lambda>rng. (t, GetBreakpointPositions generatedSource (Some (wrapInfiniteEnd rng)))) ranges @
      [(t, GetOriginalLocations (convertToList (fold mergeBps tables []) generatedSource))]"
    by (simp only: run.simps st)
next
  assume "pos_column (range_end rng) = \<infinity>"
  then show "wrapInfiniteEnd rng =
      \<lparr>range_start = range_start rng,
       range_end = \<lparr>pos_line = js_add1 (pos_line (range_end rng)), pos_column = 0\<rparr>\<rparr>"
    by (simp add: wrapInfiniteEnd_def)
next
  assume "pos_column (range_end rng) \<noteq> \<infinity>"
  then show "wrapInfiniteEnd rng = rng" by (auto simp: wrapInfiniteEnd_def)
next
  assume "n < 2 ^ 53"
  then show "js_add1 n = n + 1" by (simp add: js_add1_def)
qed

theorem wrapInfiniteEnd_before_fetch_witness:
  "calls (run strict_helpers wrapped_trace init) =
     [(0, GetGeneratedRangesForOriginal ''O1'' ''O1.js'' True),
      (0, GetBreakpointPositions G1
            (Some \<lparr>range_start = \<lparr>pos_line = 3, pos_column = 4\<rparr>,
                   range_end = \<lparr>pos_line = 6, pos_column = 0\<rparr>\<rparr>)),
      (0, GetBreakpointPositions G1
            (Some \<lparr>range_start = \<lparr>pos_line = 7, pos_column = 0\<rparr>,
                   range_end = \<lparr>pos_line = 8, pos_column = 9\<rparr>\<rparr>)),
      (0, GetOriginalLocations [loc ''G1'' 3 4, loc ''G1'' 4 0, loc ''G1'' 7 2])] \<and>
   wrapInfiniteEnd \<lparr>range_start = \<lparr>pos_line = 3, pos_column = 4\<rparr>,
                    range_end = \<lparr>pos_line = 9007199254740992, pos_column = \<infinity>\<rparr>\<rparr> =
     \<lparr>range_start = \<lparr>pos_line = 3, pos_column = 4\<rparr>,
      range_end = \<lparr>pos_line = 9007199254740992, pos_column = 0\<rparr>\<rparr>"
proof -
  let ?S = "run strict_helpers original_trace init"
  let ?r1 = "\<lparr>range_start = \<lparr>pos_line = 3, pos_column = 4\<rparr>,
              range_end = \<lparr>pos_line = 5, pos_column = \<infinity>\<rparr>\<rparr>"
  let ?r2 = "\<lparr>range_start = \<lparr>pos_line = 7, pos_column = 0\<rparr>,
              range_end = \<lparr>pos_line = 8, pos_column = 9\<rparr>\<rparr>"
  have h: "0 < length (tasks ?S) \<and> t_pc (tasks ?S ! 0) = AwaitRanges \<and>
      sources ?S (originalToGeneratedId strict_helpers (t_sourceId (tasks ?S ! 0))) = Some G1 \<and>
      length [[(3, [4]), (4, [0])], [(7, [2::nat])]] = length [?r1, ?r2]"
    by (simp add: original_trace_def eval_defs)
  note T = wrapInfiniteEnd_before_fetch [where s = ?S and t = 0 and h = strict_helpers
      and generatedSource = G1 and ranges = "[?r1, ?r2]"
      and tables = "[[(3, [4]), (4, [0])], [(7, [2])]]",
      THEN conjunct2, THEN conjunct2, THEN conjunct1, THEN mp, OF h]
  have cs: "calls ?S = [(0, GetGeneratedRangesForOriginal ''O1'' ''O1.js'' True)]"
    by (simp add: original_trace_def eval_defs)
  have "calls (run strict_helpers wrapped_trace init) =
      calls (run strict_helpers (Reply 0 (Ranges [?r1, ?r2]) #
        map (\<lambda>bps. Reply 0 (Positions bps)) [[(3, [4]), (4, [0])], [(7, [2])]]) ?S)"
    by (simp only: wrapped_trace_def run_append list.map)
  also note T
  also have "calls ?S @
      map (\<lambda>rng. (0, GetBreakpointPositions G1 (Some (wrapInfiniteEnd rng)))) [?r1, ?r2] @
      [(0, GetOriginalLocations
             (convertToList (fold mergeBps [[(3, [4]), (4, [0])], [(7, [2])]] []) G1))] =
     [(0, GetGeneratedRangesForOriginal ''O1'' ''O1.js'' True),
      (0, GetBreakpointPositions G1 (Some \<lparr>range_start = \<lparr>pos_line = 3, pos_column = 4\<rparr>,
                   range_end = \<lparr>pos_line = 6, pos_column = 0\<rparr>\<rparr>)),
      (0, GetBreakpointPositions G1 (Some ?r2)),
      (0, GetOriginalLocations [loc ''G1'' 3 4, loc ''G1'' 4 0, loc ''G1'' 7 2])]"
    by (simp add: cs wrapInfiniteEnd_def js_add1_def convertToList_def mergeBps_def tbl_get_def
        loc_def G1_def)
  finally have a: "calls (run strict_helpers wrapped_trace init) =
     [(0, GetGeneratedRangesForOriginal ''O1'' ''O1.js'' True),
      (0, GetBreakpointPositions G1 (Some \<lparr>range_start = \<lparr>pos_line = 3, pos_column = 4\<rparr>,
                   range_end = \<lparr>pos_line = 6, pos_column = 0\<rparr>\<rparr>)),
      (0, GetBreakpointPositions G1 (Some ?r2)),
      (0, GetOriginalLocations [loc ''G1'' 3 4, loc ''G1'' 4 0, loc ''G1'' 7 2])]" .
  have b: "wrapInfiniteEnd \<lparr>range_start = \<lparr>pos_line = 3, pos_column = 4\<rparr>,
                    range_end = \<lparr>pos_line = 9007199254740992, pos_column = \<infinity>\<rparr>\<rparr> =
     \<lparr>range_start = \<lparr>pos_line = 3, pos_column = 4\<rparr>,
      range_end = \<lparr>pos_line = 9007199254740992, pos_column = 0\<rparr>\<rparr>"
    using wrapInfiniteEnd_before_fetch [where rng = "\<lparr>range_start = \<lparr>pos_line = 3, pos_column = 4\<rparr>,
          range_end = \<lparr>pos_line = 9007199254740992, pos_column = \<infinity>\<rparr>\<rparr>",
        THEN conjunct2, THEN conjunct2, THEN conjunct2, THEN conjunct1]
    by (simp add: js_add1_def)
  from a b show ?thesis by simp
qed

subsection \<open>Cache first\<close>

text \<open>
  Claim C2. When the store holds positions for the source id, a call returns them as
  they are, at once: it awaits nothing, no collaborator call is issued, no task is
  added and \<^verbatim>\<open>requests\<close> is unchanged, and nothing is dispatched.
\<close>

theorem cache_first:
  assumes "breakpointPositions s sid = Some positions"
  shows "callers (setBreakpointPositions h sid s) =
           callers s @ [\<lparr>c_sourceId = sid, c_awaits = None, c_result = Some (Inr (Some positions))\<rparr>] \<and>
         calls (setBreakpointPositions h sid s) = calls s \<and>
         tasks (setBreakpointPositions h sid s) = tasks s \<and>
         requests (setBreakpointPositions h sid s) = requests s \<and>
         dispatched (setBreakpointPositions h sid s) = dispatched s \<and>
         breakpointPositions (setBreakpointPositions h sid s) = breakpointPositions s"
  by (simp add: call_cached [OF assms])

theorem cache_first_witness:
  "callers (setBreakpointPositions strict_helpers ''G1'' (run strict_helpers published_trace init)) =
     [\<lparr>c_sourceId = ''G1'', c_awaits = Some 0, c_result = None\<rparr>,
      \<lparr>c_sourceId = ''G1'', c_awaits = None,
       c_result = Some (Inr (Some
         [site (Some (loc ''O1'' 7 0)) (loc ''G1'' 10 2), site (Some (loc ''O1'' 7 1)) (loc ''G1'' 10 5),
          site (Some (loc ''O1'' 7 2)) (loc ''G1'' 11 0)]))\<rparr>] \<and>
   length (calls (setBreakpointPositions strict_helpers ''G1''
      (run strict_helpers published_trace init))) = 2 \<and>
   length (tasks (setBreakpointPositions strict_helpers ''G1''
      (run strict_helpers published_trace init))) = 1"
proof -
  have "breakpointPositions (run strict_helpers published_trace init) ''G1'' =
    Some [site (Some (loc ''O1'' 7 0)) (loc ''G1'' 10 2), site (Some (loc ''O1'' 7 1)) (loc ''G1'' 10 5),
          site (Some (loc ''O1'' 7 2)) (loc ''G1'' 11 0)]"
    by (simp add: published_trace_def eval_defs site_def)
  from cache_first [OF this, of strict_helpers] show ?thesis
    by (simp add: published_trace_def eval_defs site_def)
qed

subsection \<open>A source that is not in the store\<close>

text \<open>
  Claim C9. When the store has no record of the source id as the task begins, the task
  returns normally at once: no collaborator call is issued and nothing is dispatched.
  When the store has no record of it at the second look-up, after the original
  locations have arrived and were deduplicated, the task returns normally as well, and
  nothing is dispatched: the table of positions is unchanged.
\<close>

theorem stale_source_noop:
  "(sources s sid = None \<and> breakpointPositions s sid = None \<and> requests s sid = None \<longrightarrow>
      tasks (setBreakpointPositions h sid s) =
        tasks s @ [\<lparr>t_sourceId = sid, t_pc = Returned (Inr ())\<rparr>] \<and>
      calls (setBreakpointPositions h sid s) = calls s \<and>
      dispatched (setBreakpointPositions h sid s) = dispatched s \<and>
      breakpointPositions (setBreakpointPositions h sid s) = breakpointPositions s) \<and>
   (t < length (tasks s) \<and> t_pc (tasks s ! t) = AwaitOriginals generatedLocations \<and>
    sources s (t_sourceId (tasks s ! t)) = None \<and>
    filterByUniqLocation h (mapLocations originalLocations generatedLocations) = Inr positions \<longrightarrow>
      t_pc (tasks (step h (Reply t (Originals originalLocations)) s) ! t) = Returned (Inr ()) \<and>
      calls (step h (Reply t (Originals originalLocations)) s) = calls s \<and>
      dispatched (step h (Reply t (Originals originalLocations)) s) = dispatched s \<and>
      breakpointPositions (step h (Reply t (Originals originalLocations)) s) = breakpointPositions s)"
  by (simp add: call_fresh start_absent publish_def set_pc_def getSource_def)

theorem stale_source_noop_witness:
  "tasks (setBreakpointPositions strict_helpers ''G1'' init) =
     [\<lparr>t_sourceId = ''G1'', t_pc = Returned (Inr ())\<rparr>] \<and>
   calls (setBreakpointPositions strict_helpers ''G1'' init) = [] \<and>
   dispatched (setBreakpointPositions strict_helpers ''G1'' init) = [] \<and>
   t_pc (tasks (step strict_helpers (Reply 0 (Originals [Some (loc ''O1'' 7 0), Some (loc ''O1'' 7 0), Some (loc ''O1'' 7 2)]))
      (run strict_helpers stale_trace init)) ! 0) = Returned (Inr ()) \<and>
   dispatched (step strict_helpers (Reply 0 (Originals [Some (loc ''O1'' 7 0), Some (loc ''O1'' 7 0), Some (loc ''O1'' 7 2)]))
      (run strict_helpers stale_trace init)) = [] \<and>
   breakpointPositions (step strict_helpers (Reply 0 (Originals [Some (loc ''O1'' 7 0), Some (loc ''O1'' 7 0), Some (loc ''O1'' 7 2)]))
      (run strict_helpers stale_trace init)) ''G1'' = None"
proof -
  have a: "sources init ''G1'' = None \<and> breakpointPositions init ''G1'' = None \<and>
      requests init ''G1'' = None"
    by (simp add: init_def)
  have b: "0 < length (tasks (run strict_helpers stale_trace init)) \<and>
      t_pc (tasks (run strict_helpers stale_trace init) ! 0) =
        AwaitOriginals [loc ''G1'' 10 2, loc ''G1'' 10 5, loc ''G1'' 11 0] \<and>
      sources (run strict_helpers stale_trace init)
        (t_sourceId (tasks (run strict_helpers stale_trace init) ! 0)) = None"
    by (simp add: stale_trace_def eval_defs)
  have c: "filterByUniqLocation strict_helpers
      (mapLocations [Some (loc ''O1'' 7 0), Some (loc ''O1'' 7 0), Some (loc ''O1'' 7 2)]
         [loc ''G1'' 10 2, loc ''G1'' 10 5, loc ''G1'' 11 0]) =
      Inr [site (Some (loc ''O1'' 7 0)) (loc ''G1'' 10 2), site (Some (loc ''O1'' 7 2)) (loc ''G1'' 11 0)]"
    by (simp add: eval_defs site_def)
  have d: "breakpointPositions (run strict_helpers stale_trace init) ''G1'' = None"
    by (simp add: stale_trace_def eval_defs)
  have ra: "tasks (setBreakpointPositions strict_helpers ''G1'' init) =
        init_tasks \<and>
      calls (setBreakpointPositions strict_helpers ''G1'' init) = calls init \<and>
      dispatched (setBreakpointPositions strict_helpers ''G1'' init) = dispatched init \<and>
      breakpointPositions (setBreakpointPositions strict_helpers ''G1'' init) =
        breakpointPositions init"
    if "init_tasks = tasks init @ [\<lparr>t_sourceId = ''G1'', t_pc = Returned (Inr ())\<rparr>]"
    for init_tasks
    using stale_source_noop [where s = init and sid = "''G1''" and h = strict_helpers,
        THEN conjunct1] a that by blast
  have rb: "t_pc (tasks (step strict_helpers
        (Reply 0 (Originals [Some (loc ''O1'' 7 0), Some (loc ''O1'' 7 0), Some (loc ''O1'' 7 2)]))
        (run strict_helpers stale_trace init)) ! 0) = Returned (Inr ()) \<and>
      calls (step strict_helpers
        (Reply 0 (Originals [Some (loc ''O1'' 7 0), Some (loc ''O1'' 7 0), Some (loc ''O1'' 7 2)]))
        (run strict_helpers stale_trace init)) = calls (run strict_helpers stale_trace init) \<and>
      dispatched (step strict_helpers
        (Reply 0 (Originals [Some (loc ''O1'' 7 0), Some (loc ''O1'' 7 0), Some (loc ''O1'' 7 2)]))
        (run strict_helpers stale_trace init)) = dispatched (run strict_helpers stale_trace init) \<and>
      breakpointPositions (step strict_helpers
        (Reply 0 (Originals [Some (loc ''O1'' 7 0), Some (loc ''O1'' 7 0), Some (loc ''O1'' 7 2)]))
        (run strict_helpers stale_trace init)) =
        breakpointPositions (run strict_helpers stale_trace init)"
    using stale_source_noop [where s = "run strict_helpers stale_trace init" and t = 0
      and generatedLocations = "[loc ''G1'' 10 2, loc ''G1'' 10 5, loc ''G1'' 11 0]"
      and h = strict_helpers
      and originalLocations = "[Some (loc ''O1'' 7 0), Some (loc ''O1'' 7 0), Some (loc ''O1'' 7 2)]"
      and positions = "[site (Some (loc ''O1'' 7 0)) (loc ''G1'' 10 2),
                        site (Some (loc ''O1'' 7 2)) (loc ''G1'' 11 0)]",
      THEN conjunct2] b c by blast
  have e: "dispatched (run strict_helpers stale_trace init) = []"
    by (simp add: stale_trace_def eval_defs)
  from ra [OF refl] rb d e
  show ?thesis by (simp add: init_def)
qed

subsection \<open>The request for the generated ranges\<close>

lemma ranges_calls_append:
  "calls s' = calls s @ cs \<Longrightarrow>
   ranges_calls t s' = ranges_calls t s @ filter (\<lambda>(u, c). u = t \<and> is_ranges_call c) cs"
  by (simp add: ranges_calls_def)

lemma resume_calls:
  "\<exists>cs. calls (resume h t p r s) = calls s @ cs \<and> (\<forall>(u, c) \<in> set cs. u = t \<and> \<not> is_ranges_call c)"
  by (cases p; cases r) (simp_all add: job_defs Let_def split: list.splits sum.splits option.splits)

lemma inv_calls_same:
  "inv_calls s \<Longrightarrow> calls s' = calls s \<Longrightarrow> length (tasks s') = length (tasks s) \<Longrightarrow> inv_calls s'"
  by (simp add: inv_calls_def ranges_calls_def)

lemma inv_calls_resume:
  assumes "inv_calls s" "t < length (tasks s)"
  shows "inv_calls (resume h t p r s)"
proof -
  obtain cs where cs: "calls (resume h t p r s) = calls s @ cs"
    "\<forall>(u, c) \<in> set cs. u = t \<and> \<not> is_ranges_call c"
    using resume_calls by blast
  have "filter (\<lambda>(u, c). u = t' \<and> is_ranges_call c) cs = []" for t'
    using cs(2) by (auto simp: filter_empty_conv)
  then have "ranges_calls t' (resume h t p r s) = ranges_calls t' s" for t'
    using ranges_calls_append [OF cs(1)] by simp
  moreover have "\<forall>(u, c) \<in> set (calls (resume h t p r s)). u < length (tasks (resume h t p r s))"
    using assms cs by (auto simp: inv_calls_def resume_frame)
  ultimately show ?thesis using assms(1) by (simp add: inv_calls_def)
qed

lemma inv_calls_call:
  assumes "inv_calls s"
  shows "inv_calls (setBreakpointPositions h sid s)"
proof (cases "breakpointPositions s sid = None \<and> requests s sid = None")
  case False
  then have "calls (setBreakpointPositions h sid s) = calls s \<and>
      length (tasks (setBreakpointPositions h sid s)) = length (tasks s)"
    by (cases "breakpointPositions s sid"; cases "requests s sid")
       (simp_all add: call_cached call_registered)
  with assms show ?thesis by (simp add: inv_calls_same)
next
  case True
  let ?s' = "setBreakpointPositions h sid s"
  have len: "length (tasks ?s') = Suc (length (tasks s))"
    using True start_tasks [of h sid s] by (auto simp: call_fresh)
  obtain cs where cs: "calls ?s' = calls s @ cs" "length cs \<le> 1"
    "\<forall>(u, c) \<in> set cs. u = length (tasks s)"
    using True
    by (cases "sources s sid") (auto simp: call_fresh start_absent start_present)
  have none: "ranges_calls (length (tasks s)) s = []"
    using assms by (auto simp: inv_calls_def ranges_calls_def filter_empty_conv)
  have "length (ranges_calls t ?s') \<le> 1" for t
  proof (cases "t = length (tasks s)")
    case True
    have "length (filter (\<lambda>(u, c). u = t \<and> is_ranges_call c) cs) \<le> length cs"
      by (rule length_filter_le)
    with cs(2) have "length (filter (\<lambda>(u, c). u = t \<and> is_ranges_call c) cs) \<le> 1"
      by linarith
    with none True show ?thesis
      using ranges_calls_append [OF cs(1), of t] by simp
  next
    case False
    with cs(3) have "filter (\<lambda>(u, c). u = t \<and> is_ranges_call c) cs = []"
      by (auto simp: filter_empty_conv)
    with assms show ?thesis
      using ranges_calls_append [OF cs(1), of t] by (simp add: inv_calls_def)
  qed
  moreover have "\<forall>(u, c) \<in> set (calls ?s'). u < length (tasks ?s')"
    using assms cs(1,3) len by (auto simp: inv_calls_def)
  ultimately show ?thesis by (simp add: inv_calls_def)
qed

lemma inv_calls_step: "inv_calls s \<Longrightarrow> inv_calls (step h e s)"
proof (cases e)
  case (Settle t)
  assume "inv_calls s"
  then show ?thesis
    unfolding Settle
    by (auto intro!: inv_calls_same [of s] simp: settle_def set_pc_def split: pc.splits)
next
  case (Deliver t)
  assume "inv_calls s"
  then show ?thesis
    unfolding Deliver
    by (auto intro!: inv_calls_same [of s] simp: deliver_def split: pc.splits)
qed (auto simp: inv_calls_call inv_calls_resume intro: inv_calls_same)

lemma inv_calls_run: "inv_calls s \<Longrightarrow> inv_calls (run h es s)"
  by (induction es arbitrary: s) (simp_all add: inv_calls_step)

lemma inv_calls_init: "inv_calls init"
  by (simp add: inv_calls_def init_def ranges_calls_def)

text \<open>
  Claim C10, as amended. A call that starts a task for an original source asks the
  source-map service for the generated ranges with the source id, the url of the record
  that the store holds for that same id (the original source's own record) and
  \<^verbatim>\<open>true\<close>. In every reachable state a task has asked for the generated ranges
  at most once.
\<close>

theorem ranges_request_arguments:
  "(sources s sid = Some source \<and> isOriginalId h sid \<and> breakpointPositions s sid = None \<and>
    requests s sid = None \<longrightarrow>
      calls (setBreakpointPositions h sid s) =
        calls s @ [(length (tasks s), GetGeneratedRangesForOriginal sid (src_url source) True)]) \<and>
   length (ranges_calls t (run h evs init)) \<le> 1"
proof -
  have "inv_calls (run h evs init)" by (rule inv_calls_run [OF inv_calls_init])
  then show ?thesis
    by (auto simp: call_fresh start_present inv_calls_def)
qed

theorem ranges_request_arguments_witness:
  "calls (run strict_helpers original_trace init) =
     [(0, GetGeneratedRangesForOriginal ''O1'' ''O1.js'' True)] \<and>
   ranges_calls 0 (run strict_helpers (original_trace @
      [Reply 0 (Ranges [\<lparr>range_start = \<lparr>pos_line = 10, pos_column = 0\<rparr>,
                        range_end = \<lparr>pos_line = 12, pos_column = \<infinity>\<rparr>\<rparr>])]) init) =
     [(0, GetGeneratedRangesForOriginal ''O1'' ''O1.js'' True)]"
proof -
  have a: "sources (run strict_helpers [AddSource O1, AddSource G1] init) ''O1'' = Some O1 \<and>
      isOriginalId strict_helpers ''O1'' \<and>
      breakpointPositions (run strict_helpers [AddSource O1, AddSource G1] init) ''O1'' = None \<and>
      requests (run strict_helpers [AddSource O1, AddSource G1] init) ''O1'' = None"
    by (simp add: eval_defs)
  have b: "calls (setBreakpointPositions strict_helpers ''O1''
        (run strict_helpers [AddSource O1, AddSource G1] init)) =
      calls (run strict_helpers [AddSource O1, AddSource G1] init) @
        [(length (tasks (run strict_helpers [AddSource O1, AddSource G1] init)),
          GetGeneratedRangesForOriginal ''O1'' (src_url O1) True)]"
    using ranges_request_arguments [where s = "run strict_helpers [AddSource O1, AddSource G1] init"
        and sid = "''O1''" and source = O1 and h = strict_helpers, THEN conjunct1] a
    by blast
  have c: "length (ranges_calls 0 (run strict_helpers (original_trace @
      [Reply 0 (Ranges [\<lparr>range_start = \<lparr>pos_line = 10, pos_column = 0\<rparr>,
                        range_end = \<lparr>pos_line = 12, pos_column = \<infinity>\<rparr>\<rparr>])]) init)) \<le> 1"
    using ranges_request_arguments [THEN conjunct2] .
  from b c show ?thesis
    by (simp add: original_trace_def eval_defs ranges_calls_def)
qed

text \<open>
  Claim C10, as stated, fails: the url that is passed is not the url of the generated
  source. Here the original source \<open>O1\<close> has the url \<open>O1.js\<close> and its generated
  source \<open>G1\<close> the url \<open>G1.js\<close>; the request carries \<open>O1.js\<close>.
\<close>

theorem ranges_request_generated_url_counterexample:
  "calls (run strict_helpers original_trace init) =
     [(0, GetGeneratedRangesForOriginal ''O1'' ''O1.js'' True)] \<and>
   map_option src_url (sources (run strict_helpers original_trace init)
       (originalToGeneratedId strict_helpers ''O1'')) = Some ''G1.js''"
  by (simp add: original_trace_def eval_defs)

subsection \<open>A collaborator fails\<close>

lemma failed_inv_step:
  assumes "failed_inv t x s"
  shows "failed_inv t x (step h e s)"
proof (cases e)
  case (Call sid)
  from call_effect [of h sid s] obtain c ts where
    c: "callers (setBreakpointPositions h sid s) = callers s @ [c]"
       "c_result c = None \<or> c_awaits c = None"
       "tasks (setBreakpointPositions h sid s) = tasks s @ ts"
       "dispatched (setBreakpointPositions h sid s) = dispatched s"
    by blast
  from assms show ?thesis
    unfolding Call failed_inv_def step.simps c using c(2)
    by (auto simp: nth_append)
next
  case (Reply u r)
  show ?thesis
  proof (cases "u < length (tasks s)")
    case False
    with assms show ?thesis by (simp add: Reply)
  next
    case True
    show ?thesis
    proof (cases "u = t")
      case True
      from assms have "\<not> awaiting (t_pc (tasks s ! t))" by (auto simp: failed_inv_def)
      with assms True show ?thesis by (simp add: Reply resume_not_awaiting)
    next
      case False
      let ?s' = "resume h u (t_pc (tasks s ! u)) r s"
      from resume_store [OF True, of h r] False
      have "fst ` set (dispatched ?s') \<subseteq> insert u (fst ` set (dispatched s))"
        by auto
      with assms False have "t \<notin> fst ` set (dispatched ?s')"
        by (auto simp: failed_inv_def)
      with assms False True show ?thesis
        by (simp add: Reply failed_inv_def resume_frame resume_other)
    qed
  qed
next
  case (Settle u)
  from assms show ?thesis
    unfolding Settle failed_inv_def
    by (cases "u = t") (auto simp: settle_def set_pc_def split: pc.splits)
next
  case (Deliver u)
  show ?thesis
  proof (cases "u < length (tasks s) \<and> is_settled (t_pc (tasks s ! u))")
    case False
    then have "step h (Deliver u) s = s"
      by (cases "t_pc (tasks s ! u)") (auto simp: deliver_def)
    with assms show ?thesis by (simp add: Deliver)
  next
    case True
    then obtain r where r: "t_pc (tasks s ! u) = Settled r"
      by (cases "t_pc (tasks s ! u)") auto
    with True have s': "step h (Deliver u) s = s\<lparr>callers := map (deliver_to s u r) (callers s)\<rparr>"
      by (simp add: deliver_def)
    have "c_result (deliver_to s u r c) = Some (Inl x)"
      if "c \<in> set (callers s)" "c_awaits c = Some t" "c_result (deliver_to s u r c) \<noteq> None" for c
    proof (cases "u = t")
      case True
      with r assms have "r = Inl x" by (auto simp: failed_inv_def)
      with that assms True show ?thesis
        by (auto simp: deliver_to_def failed_inv_def split: if_splits)
    next
      case False
      with that assms show ?thesis by (auto simp: deliver_to_def failed_inv_def)
    qed
    moreover have "c_awaits (deliver_to s u r c) = c_awaits c" for c
      by (simp add: deliver_to_def)
    ultimately show ?thesis
      using assms unfolding Deliver s' failed_inv_def by auto
  qed
next
  case (AddSource src)
  with assms show ?thesis by (simp add: failed_inv_def)
next
  case (RemoveSource sid)
  with assms show ?thesis by (simp add: failed_inv_def)
qed

lemma failed_inv_run: "failed_inv t x s \<Longrightarrow> failed_inv t x (run h es s)"
  by (induction es arbitrary: s) (simp_all add: failed_inv_step)

lemma failed_inv_delivered:
  assumes "failed_inv t x s"
  shows "\<forall>c\<in>set (callers (step h (Deliver t) (step h (Settle t) s))).
           c_awaits c = Some t \<longrightarrow> c_result c = Some (Inl x)"
proof -
  let ?s1 = "step h (Settle t) s"
  have f1: "failed_inv t x ?s1" using assms by (rule failed_inv_step)
  from assms have "t_pc (tasks ?s1 ! t) = Settled (Inl x)"
    by (auto simp: failed_inv_def settle_def set_pc_def)
  moreover from f1 have "t < length (tasks ?s1)" by (simp add: failed_inv_def)
  ultimately have s2: "step h (Deliver t) ?s1 =
      ?s1\<lparr>callers := map (deliver_to ?s1 t (Inl x)) (callers ?s1)\<rparr>"
    by (simp add: deliver_def)
  from f1 show ?thesis
    unfolding s2 by (auto simp: failed_inv_def deliver_to_def)
qed

text \<open>
  Claim C3. Let a task of a reachable state await a collaborator, and let the
  collaborator reject with reason \<open>e\<close>. Then \<^verbatim>\<open>_setBreakpointPositions\<close> raises
  that rejection at once, issuing no further call and dispatching nothing. Whatever
  happens afterwards, the task never dispatches, and a call that awaits the task and has
  a result has raised that same rejection. Once the task has settled and its callers
  have been resumed, every call that awaits it has raised that rejection.
\<close>

theorem collaborator_failure:
  assumes "t < length (tasks (run h evs init))"
    and "awaiting (t_pc (tasks (run h evs init) ! t))"
  shows "let s = run h evs init; s1 = step h (Reply t (Reject e)) s; s2 = run h evs' s1;
             s3 = step h (Deliver t) (step h (Settle t) s2) in
     t_pc (tasks s1 ! t) = Returned (Inl (Rejected e)) \<and>
     calls s1 = calls s \<and> dispatched s1 = dispatched s \<and>
     breakpointPositions s1 = breakpointPositions s \<and>
     t \<notin> fst ` set (dispatched s2) \<and>
     (\<forall>c\<in>set (callers s2). c_awaits c = Some t \<and> c_result c \<noteq> None \<longrightarrow>
                             c_result c = Some (Inl (Rejected e))) \<and>
     (\<forall>c\<in>set (callers s3). c_awaits c = Some t \<longrightarrow> c_result c = Some (Inl (Rejected e)))"
proof -
  let ?s = "run h evs init"
  let ?s1 = "step h (Reply t (Reject e)) ?s"
  have wf: "wf ?s" by (rule wf_run [OF wf_init])
  have s1: "?s1 = set_pc t (Returned (Inl (Rejected e))) ?s"
    using assms by (simp add: resume_reject)
  have nodisp: "t \<notin> fst ` set (dispatched ?s)"
  proof
    assume "t \<in> fst ` set (dispatched ?s)"
    then obtain a where "(t, a) \<in> set (dispatched ?s)" by auto
    with wf have "t_pc (tasks ?s ! t) \<in> {Returned (Inr ()), Settled (Inr ())}"
      unfolding wf_def inv_disp_def by blast
    with assms(2) show False by auto
  qed
  have nores: "c_result c = None" if "c \<in> set (callers ?s)" "c_awaits c = Some t" for c
  proof -
    from assms(2) have "\<not> is_settled (t_pc (tasks ?s ! t))"
      by (cases "t_pc (tasks ?s ! t)") auto
    with wf that show ?thesis unfolding wf_def inv_call_def by blast
  qed
  have f1: "failed_inv t (Rejected e) ?s1"
    unfolding s1 failed_inv_def using assms(1) nodisp nores
    by (auto simp: set_pc_def)
  have f2: "failed_inv t (Rejected e) (run h evs' ?s1)"
    using f1 by (rule failed_inv_run)
  have a: "t_pc (tasks ?s1 ! t) = Returned (Inl (Rejected e)) \<and>
     calls ?s1 = calls ?s \<and> dispatched ?s1 = dispatched ?s \<and>
     breakpointPositions ?s1 = breakpointPositions ?s"
    unfolding s1 using assms(1) by (simp add: set_pc_def)
  from a f2 failed_inv_delivered [OF f2, of h] show ?thesis
    unfolding Let_def failed_inv_def by blast
qed

theorem collaborator_failure_witness:
  "t_pc (tasks (step strict_helpers (Reply 0 (Reject ''offline''))
       (run strict_helpers waiting_trace init)) ! 0) = Returned (Inl (Rejected ''offline'')) \<and>
   dispatched (run strict_helpers [Call ''G1'']
       (step strict_helpers (Reply 0 (Reject ''offline'')) (run strict_helpers waiting_trace init))) = [] \<and>
   map c_result (callers (step strict_helpers (Deliver 0) (step strict_helpers (Settle 0)
       (run strict_helpers [Call ''G1'']
          (step strict_helpers (Reply 0 (Reject ''offline''))
             (run strict_helpers waiting_trace init)))))) =
     [Some (Inl (Rejected ''offline'')), Some (Inl (Rejected ''offline'')),
      Some (Inl (Rejected ''offline''))]"
proof -
  have a: "0 < length (tasks (run strict_helpers waiting_trace init))"
    by (simp add: waiting_trace_def eval_defs)
  have b: "awaiting (t_pc (tasks (run strict_helpers waiting_trace init) ! 0))"
    by (simp add: waiting_trace_def eval_defs)
  from collaborator_failure [OF a b, of "''offline''" "[Call ''G1'']"]
  show ?thesis
    by (simp add: waiting_trace_def eval_defs)
qed

subsection \<open>Coalescing\<close>




subsection \<open>Cleanup\<close>

lemma requests_none_step:
  assumes "requests s sid = None" "e \<noteq> Call sid"
  shows "requests (step h e s) sid = None"
proof (cases e)
  case (Call sid')
  with assms(2) have ne: "sid' \<noteq> sid" by simp
  show ?thesis
  proof (cases "breakpointPositions s sid'")
    case (Some ps)
    with assms(1) show ?thesis by (simp add: Call call_cached)
  next
    case None
    with assms(1) ne show ?thesis
      by (cases "requests s sid'") (simp_all add: Call call_registered call_fresh)
  qed
next
  case (Reply t r)
  with assms(1) show ?thesis by (simp add: resume_frame)
next
  case (Settle t)
  with assms(1) show ?thesis by (simp add: settle_def set_pc_def split: pc.splits)
next
  case (Deliver t)
  with assms(1) show ?thesis by (simp add: deliver_def split: pc.splits)
next
  case (AddSource src)
  with assms(1) show ?thesis by simp
next
  case (RemoveSource x)
  with assms(1) show ?thesis by simp
qed

lemma requests_none_run:
  "requests s sid = None \<Longrightarrow> Call sid \<notin> set es \<Longrightarrow> requests (run h es s) sid = None"
proof (induction es arbitrary: s)
  case Nil
  then show ?case by simp
next
  case (Cons e es)
  from Cons.prems have "requests (step h e s) sid = None"
    by (intro requests_none_step) auto
  with Cons show ?case by simp
qed

text \<open>
  Claim C6, as amended. Let \<^verbatim>\<open>_setBreakpointPositions\<close> have returned or raised in
  a task of a reachable state, with whatever outcome \<open>r\<close>. The task is still
  registered, no call that awaits it has a result and none can be resumed; the
  \<^verbatim>\<open>finally\<close> block removes the registration and settles the promise with \<open>r\<close>.
  From then on the source id stays unregistered until it is called again, and such a
  call, if the store holds no positions for the id, registers a new task that starts
  \<^verbatim>\<open>_setBreakpointPositions\<close> anew: with no record of the source in the store it
  returns at once and issues no call, and with a record it issues the request for the
  generated ranges of an original source, or the request for the positions of a
  generated one.
\<close>

theorem cleanup_on_every_exit:
  "let s = run h evs init; sid = t_sourceId (tasks s ! t) in
   t < length (tasks s) \<and> t_pc (tasks s ! t) = Returned r \<longrightarrow>
     requests s sid = Some t \<and>
     (\<forall>c\<in>set (callers s). c_awaits c = Some t \<longrightarrow> c_result c = None) \<and>
     step h (Deliver t) s = s \<and>
     t_pc (tasks (step h (Settle t) s) ! t) = Settled r \<and>
     (\<forall>evs'. Call sid \<notin> set evs' \<longrightarrow>
        (let s2 = run h evs' (step h (Settle t) s) in
           requests s2 sid = None \<and>
           (breakpointPositions s2 sid = None \<longrightarrow>
              requests (step h (Call sid) s2) sid = Some (length (tasks s2)) \<and>
              tasks (step h (Call sid) s2) = tasks s2 @
                [\<lparr>t_sourceId = sid,
                  t_pc = (case sources s2 sid of
                            None \<Rightarrow> Returned (Inr ())
                          | Some source \<Rightarrow>
                              if isOriginalId h sid then AwaitRanges else AwaitAll source)\<rparr>] \<and>
              calls (step h (Call sid) s2) = calls s2 @
                (case sources s2 sid of
                   None \<Rightarrow> []
                 | Some source \<Rightarrow>
                     [(length (tasks s2),
                       if isOriginalId h sid
                       then GetGeneratedRangesForOriginal sid (src_url source) True
                       else GetBreakpointPositions source None)]))))"
proof -
  let ?s = "run h evs init"
  let ?sid = "t_sourceId (tasks ?s ! t)"
  have wf: "wf ?s" by (rule wf_run [OF wf_init])
  {
    assume t: "t < length (tasks ?s)" and pc: "t_pc (tasks ?s ! t) = Returned r"
    from wf have reg: "inv_reg ?s" and call: "inv_call ?s" by (simp_all add: wf_def)
    from reg t pc have a: "requests ?s ?sid = Some t" by (simp add: inv_reg_def)
    have b: "\<forall>c\<in>set (callers ?s). c_awaits c = Some t \<longrightarrow> c_result c = None"
    proof (intro ballI impI)
      fix c assume "c \<in> set (callers ?s)" "c_awaits c = Some t"
      with call have "c_result c \<noteq> None \<longrightarrow> is_settled (t_pc (tasks ?s ! t))"
        unfolding inv_call_def by blast
      with pc show "c_result c = None" by auto
    qed
    from t pc have c: "step h (Deliver t) ?s = ?s" by (simp add: deliver_def)
    from t pc have d: "t_pc (tasks (step h (Settle t) ?s) ! t) = Settled r"
      by (simp add: settle_def set_pc_def)
    from t pc have none: "requests (step h (Settle t) ?s) ?sid = None"
      by (simp add: settle_def set_pc_def)
    have e: "\<forall>evs'. Call ?sid \<notin> set evs' \<longrightarrow>
        (let s2 = run h evs' (step h (Settle t) ?s) in
           requests s2 ?sid = None \<and>
           (breakpointPositions s2 ?sid = None \<longrightarrow>
              requests (step h (Call ?sid) s2) ?sid = Some (length (tasks s2)) \<and>
              tasks (step h (Call ?sid) s2) = tasks s2 @
                [\<lparr>t_sourceId = ?sid,
                  t_pc = (case sources s2 ?sid of
                            None \<Rightarrow> Returned (Inr ())
                          | Some source \<Rightarrow>
                              if isOriginalId h ?sid then AwaitRanges else AwaitAll source)\<rparr>] \<and>
              calls (step h (Call ?sid) s2) = calls s2 @
                (case sources s2 ?sid of
                   None \<Rightarrow> []
                 | Some source \<Rightarrow>
                     [(length (tasks s2),
                       if isOriginalId h ?sid
                       then GetGeneratedRangesForOriginal ?sid (src_url source) True
                       else GetBreakpointPositions source None)])))"
      unfolding Let_def
    proof (intro allI impI conjI)
      fix evs' assume "Call ?sid \<notin> set evs'"
      with none show n2: "requests (run h evs' (step h (Settle t) ?s)) ?sid = None"
        by (rule requests_none_run)
      assume unc: "breakpointPositions (run h evs' (step h (Settle t) ?s)) ?sid = None"
      note f = fresh_call [OF n2 unc, of h]
      from f show "requests (step h (Call ?sid) (run h evs' (step h (Settle t) ?s))) ?sid =
          Some (length (tasks (run h evs' (step h (Settle t) ?s))))" by (rule conjunct1)
      from f show "tasks (step h (Call ?sid) (run h evs' (step h (Settle t) ?s))) =
          tasks (run h evs' (step h (Settle t) ?s)) @
            [\<lparr>t_sourceId = ?sid,
              t_pc = (case sources (run h evs' (step h (Settle t) ?s)) ?sid of
                        None \<Rightarrow> Returned (Inr ())
                      | Some source \<Rightarrow>
                          if isOriginalId h ?sid then AwaitRanges else AwaitAll source)\<rparr>]"
        by (rule conjunct2 [THEN conjunct1])
      from f show "calls (step h (Call ?sid) (run h evs' (step h (Settle t) ?s))) =
          calls (run h evs' (step h (Settle t) ?s)) @
            (case sources (run h evs' (step h (Settle t) ?s)) ?sid of
               None \<Rightarrow> []
             | Some source \<Rightarrow>
                 [(length (tasks (run h evs' (step h (Settle t) ?s))),
                   if isOriginalId h ?sid
                   then GetGeneratedRangesForOriginal ?sid (src_url source) True
                   else GetBreakpointPositions source None)])"
        by (rule conjunct2 [THEN conjunct2])
    qed
    note a b c d e
  }
  then show ?thesis
    unfolding Let_def by (intro impI conjI) (elim conjE, assumption)+
qed

theorem cleanup_on_every_exit_witness:
  "requests (run strict_helpers failed_trace init) ''G1'' = Some 0 \<and>
   requests (step strict_helpers (Settle 0) (run strict_helpers failed_trace init)) ''G1'' = None \<and>
   requests (step strict_helpers (Call ''G1'') (run strict_helpers [Deliver 0]
     (step strict_helpers (Settle 0) (run strict_helpers failed_trace init)))) ''G1'' = Some 1 \<and>
   calls (step strict_helpers (Call ''G1'') (run strict_helpers [Deliver 0]
     (step strict_helpers (Settle 0) (run strict_helpers failed_trace init)))) =
     [(0, GetBreakpointPositions G1 None), (1, GetBreakpointPositions G1 None)]"
proof -
  have h: "0 < length (tasks (run strict_helpers failed_trace init)) \<and>
      t_pc (tasks (run strict_helpers failed_trace init) ! 0) = Returned (Inl (Rejected ''offline''))"
    by (simp add: failed_trace_def eval_defs)
  note T = cleanup_on_every_exit [of strict_helpers failed_trace 0 "Inl (Rejected ''offline'')",
      unfolded Let_def, THEN mp, OF h]
  note T1 = T [THEN conjunct1]
  note T5 = T [THEN conjunct2, THEN conjunct2, THEN conjunct2, THEN conjunct2, rule_format,
      of "[Deliver 0]"]
  have sid: "t_sourceId (tasks (run strict_helpers failed_trace init) ! 0) = ''G1''"
    by (simp add: failed_trace_def eval_defs)
  have unc: "breakpointPositions (run strict_helpers [Deliver 0]
     (step strict_helpers (Settle 0) (run strict_helpers failed_trace init))) ''G1'' = None"
    by (simp add: failed_trace_def eval_defs)
  have src: "sources (run strict_helpers [Deliver 0]
     (step strict_helpers (Settle 0) (run strict_helpers failed_trace init))) ''G1'' = Some G1"
    by (simp add: failed_trace_def eval_defs)
  have len: "length (tasks (run strict_helpers [Deliver 0]
     (step strict_helpers (Settle 0) (run strict_helpers failed_trace init)))) = 1"
    by (simp add: failed_trace_def eval_defs)
  have cls: "calls (run strict_helpers [Deliver 0]
     (step strict_helpers (Settle 0) (run strict_helpers failed_trace init))) =
     [(0, GetBreakpointPositions G1 None)]"
    by (simp add: failed_trace_def eval_defs)
  have orig: "\<not> isOriginalId strict_helpers ''G1''"
    by (simp add: strict_helpers_def)
  note T6 = T [THEN conjunct2, THEN conjunct2, THEN conjunct2, THEN conjunct2, rule_format,
      of "[]", unfolded sid run.simps, THEN conjunct1]
  from T1 T5 [unfolded sid] T6 unc src len cls orig sid show ?thesis
    by (simp del: step.simps run.simps)
qed

text \<open>
  Claim C6, as stated, fails where it says that the subsequent call issues a new fetch.
  After an early return for a source that the store does not have, the registration is
  removed and the next call registers a new task, which returns early again: no call
  to a collaborator is issued.
\<close>

theorem cleanup_new_fetch_counterexample:
  "t_pc (tasks (run strict_helpers absent_trace init) ! 0) = Settled (Inr ()) \<and>
   requests (run strict_helpers absent_trace init) ''G1'' = Some 1 \<and>
   t_pc (tasks (run strict_helpers absent_trace init) ! 1) = Returned (Inr ()) \<and>
   calls (run strict_helpers absent_trace init) = []"
  by (simp add: absent_trace_def eval_defs)

end
